theory Spec2Isabelle
  imports
    Complex_Main
    "HOL-Library.Product_Lexorder"
    "HOL-Library.FSet"
    "HOL-Library.Multiset"
begin

section \<open>The surface graph of \<open>rmt::Graph\<close> (graph.cpp)\<close>

text \<open>
  Indices are the C++ \<open>int\<close>s of the source, modelled as mathematical integers: the only
  arithmetic on them is \<open>CurNode++\<close>, \<open>i + 1\<close> and the sum of an offset and a position,
  all bounded by the sizes of the arrays. Coordinates and weights are the \<open>double\<close>s of
  \<open>Eigen::Vector3d\<close>, modelled by the type \<open>double\<close> below. An access
  \<open>v[i]\<close> to a \<open>std::vector\<close> outside its bounds is undefined behaviour in the source; here
  it is the error value \<open>OutOfBounds\<close>.
\<close>

datatype error = OutOfBounds

subsection \<open>Double precision\<close>

text \<open>
  A \<open>double\<close> is a finite value, an infinity or a NaN (IEEE 754 binary64; the sign of zero
  is not modelled, and a finite value may be any real number: the representable ones are
  the finite values of \<open>fl\<close>). \<open>fl x\<close> is the result of rounding the exact value \<open>x\<close> of an operation
  to the nearest double, ties to even: the infinity of its sign when \<open>|x|\<close> reaches
  \<open>2^1024 - 2^970\<close>, half a unit in the last place above the largest finite double, and
  otherwise the nearest multiple of \<open>2^(e - 52)\<close>, where \<open>e\<close> is the binary exponent of
  \<open>x\<close>, at least \<open>-1022\<close> (below it the doubles are subnormal and a result can round to 0).
  \<open>fadd\<close>, \<open>fsub\<close>, \<open>fmul\<close> and \<open>fsqrt\<close> are the operations of the machine: the exact
  result, rounded, with the usual cases for infinities and NaN.
\<close>

datatype double = Finite real | PlusInf | MinusInf | NaN

definition round_half_even :: "real \<Rightarrow> int" where
  "round_half_even y =
     (let f = \<lfloor>y\<rfloor> in
      if y - of_int f < 1 / 2 then f
      else if 1 / 2 < y - of_int f then f + 1
      else if even f then f else f + 1)"

definition nearest_double :: "real \<Rightarrow> real" where
  "nearest_double x =
     (if x = 0 then 0
      else (let e = max \<lfloor>log 2 \<bar>x\<bar>\<rfloor> (- 1022) - 52
            in of_int (round_half_even (x / 2 powr of_int e)) * 2 powr of_int e))"

definition fl :: "real \<Rightarrow> double" where
  "fl x =
     (if 2 ^ 1024 - 2 ^ 970 \<le> \<bar>x\<bar> then (if 0 < x then PlusInf else MinusInf)
      else Finite (nearest_double x))"

fun fneg :: "double \<Rightarrow> double" where
  "fneg (Finite a) = Finite (- a)"
| "fneg PlusInf = MinusInf"
| "fneg MinusInf = PlusInf"
| "fneg NaN = NaN"

fun fadd :: "double \<Rightarrow> double \<Rightarrow> double" where
  "fadd (Finite a) (Finite b) = fl (a + b)"
| "fadd NaN _ = NaN"
| "fadd _ NaN = NaN"
| "fadd PlusInf MinusInf = NaN"
| "fadd MinusInf PlusInf = NaN"
| "fadd PlusInf _ = PlusInf"
| "fadd _ PlusInf = PlusInf"
| "fadd MinusInf _ = MinusInf"
| "fadd _ MinusInf = MinusInf"

definition fsub :: "double \<Rightarrow> double \<Rightarrow> double" where
  "fsub a b = fadd a (fneg b)"

fun fmul :: "double \<Rightarrow> double \<Rightarrow> double" where
  "fmul (Finite a) (Finite b) = fl (a * b)"
| "fmul NaN _ = NaN"
| "fmul _ NaN = NaN"
| "fmul (Finite a) PlusInf = (if a = 0 then NaN else if 0 < a then PlusInf else MinusInf)"
| "fmul (Finite a) MinusInf = (if a = 0 then NaN else if 0 < a then MinusInf else PlusInf)"
| "fmul PlusInf (Finite b) = (if b = 0 then NaN else if 0 < b then PlusInf else MinusInf)"
| "fmul MinusInf (Finite b) = (if b = 0 then NaN else if 0 < b then MinusInf else PlusInf)"
| "fmul PlusInf PlusInf = PlusInf"
| "fmul MinusInf MinusInf = PlusInf"
| "fmul PlusInf MinusInf = MinusInf"
| "fmul MinusInf PlusInf = MinusInf"

fun fsqrt :: "double \<Rightarrow> double" where
  "fsqrt (Finite a) = (if a < 0 then NaN else fl (sqrt a))"
| "fsqrt PlusInf = PlusInf"
| "fsqrt MinusInf = NaN"
| "fsqrt NaN = NaN"

subsection \<open>The graph\<close>

type_synonym Vector3d = "double \<times> double \<times> double"
type_synonym Edge = "int \<times> int"
type_synonym WEdge = "int \<times> double"
type_synonym Triangle = "int \<times> int \<times> int"

record Graph =
  m_Verts :: "Vector3d list"
  m_Idxs :: "int list"
  m_Adjs :: "WEdge list"

definition vec_at :: "'a list \<Rightarrow> int \<Rightarrow> error + 'a" where
  "vec_at xs i = (if 0 \<le> i \<and> i < int (length xs) then Inr (xs ! nat i) else Inl OutOfBounds)"

definition vec_put :: "'a list \<Rightarrow> int \<Rightarrow> 'a \<Rightarrow> error + 'a list" where
  "vec_put xs i v = (if 0 \<le> i \<and> i < int (length xs) then Inr (xs[nat i := v]) else Inl OutOfBounds)"

text \<open>
  \<open>(a - b).norm()\<close> on \<open>Eigen::Vector3d\<close>: the coefficients of the difference, the sum
  of their squares and its square root, each operation in double precision. Eigen is not
  part of the sources; it computes \<open>norm()\<close> as the square root of \<open>squaredNorm()\<close>,
  without rescaling, and the sum is taken here from the first coefficient to the last.
\<close>

definition diff_norm :: "Vector3d \<Rightarrow> Vector3d \<Rightarrow> double" where
  "diff_norm a b =
     (case a of (ax, ay, az) \<Rightarrow> case b of (bx, by, bz) \<Rightarrow>
        (let dx = fsub ax bx; dy = fsub ay by; dz = fsub az bz
         in fsqrt (fadd (fadd (fmul dx dx) (fmul dy dy)) (fmul dz dz))))"

text \<open>A point with finite coordinates.\<close>

definition vec3 :: "real \<Rightarrow> real \<Rightarrow> real \<Rightarrow> Vector3d" where
  "vec3 x y z = (Finite x, Finite y, Finite z)"

subsection \<open>The streaming loop shared by the three constructors\<close>

text \<open>
  Lines 47--65, 83--100 and 118--135 of graph.cpp are the same text: \<open>m_Idxs\<close> is resized
  to \<open>nVerts + 1\<close> zeros, \<open>CurNode\<close> starts at 0 with \<open>CurVert = m_Verts[0]\<close>, and the
  sorted edges are streamed. The state of the loop is a record; one iteration is
  \<open>stream_body\<close>.
\<close>

record stream_state =
  CurNode :: int
  CurVert :: Vector3d
  Idxs :: "int list"
  Adjs :: "WEdge list"

definition advance :: "Vector3d list \<Rightarrow> int \<Rightarrow> stream_state \<Rightarrow> error + stream_state" where
  "advance Verts first s =
     (if first \<noteq> CurNode s then
        (case vec_put (Idxs s) (CurNode s + 1) (int (length (Adjs s))) of
           Inl e \<Rightarrow> Inl e
         | Inr I \<Rightarrow>
             (case vec_at Verts (CurNode s + 1) of
                Inl e \<Rightarrow> Inl e
              | Inr v \<Rightarrow> Inr (s\<lparr>CurNode := CurNode s + 1, CurVert := v, Idxs := I\<rparr>)))
      else Inr s)"

definition stream_body :: "Vector3d list \<Rightarrow> Edge \<Rightarrow> stream_state \<Rightarrow> error + stream_state" where
  "stream_body Verts e s =
     (case advance Verts (fst e) s of
        Inl x \<Rightarrow> Inl x
      | Inr s' \<Rightarrow>
          (let ONode = snd e in
           case vec_at Verts ONode of
             Inl x \<Rightarrow> Inl x
           | Inr OVert \<Rightarrow> Inr (s'\<lparr>Adjs := Adjs s' @ [(ONode, diff_norm (CurVert s') OVert)]\<rparr>)))"

fun stream_loop :: "Vector3d list \<Rightarrow> Edge list \<Rightarrow> stream_state \<Rightarrow> error + stream_state" where
  "stream_loop Verts [] s = Inr s"
| "stream_loop Verts (e # es) s =
     (case stream_body Verts e s of Inl x \<Rightarrow> Inl x | Inr s' \<Rightarrow> stream_loop Verts es s')"

definition populate :: "Vector3d list \<Rightarrow> Edge list \<Rightarrow> error + Graph" where
  "populate V Edges =
     (let Verts = V; Idxs0 = replicate (length V + 1) 0 in
      case vec_at Verts 0 of
        Inl x \<Rightarrow> Inl x
      | Inr v0 \<Rightarrow>
          (case stream_loop Verts Edges \<lparr>CurNode = 0, CurVert = v0, Idxs = Idxs0, Adjs = []\<rparr> of
             Inl x \<Rightarrow> Inl x
           | Inr s \<Rightarrow>
               (case vec_put (Idxs s) (CurNode s + 1) (int (length (Adjs s))) of
                  Inl x \<Rightarrow> Inl x
                | Inr I \<Rightarrow> Inr \<lparr>m_Verts = Verts, m_Idxs = I, m_Adjs = Adjs s\<rparr>)))"

subsection \<open>The three constructors\<close>

text \<open>The six \<open>emplace_back\<close> calls of one triangle, in the order of the source.\<close>

fun tri_edges :: "Triangle \<Rightarrow> Edge list" where
  "tri_edges (f0, f1, f2) =
     [(min f0 f1, max f0 f1), (min f1 f2, max f1 f2), (min f2 f0, max f2 f0),
      (max f0 f1, min f0 f1), (max f1 f2, min f1 f2), (max f2 f0, min f2 f0)]"

definition all_tri_edges :: "Triangle list \<Rightarrow> Edge list" where
  "all_tri_edges F = concat (map tri_edges F)"

text \<open>
  \<open>Graph(V, F)\<close>: \<open>std::sort\<close> is \<open>sort\<close> on the lexicographic order of pairs, and
  \<open>std::unique\<close> removes adjacent duplicates, which is \<open>remdups_adj\<close>.
\<close>

definition Graph_VF :: "Vector3d list \<Rightarrow> Triangle list \<Rightarrow> error + Graph" where
  "Graph_VF V F = populate V (remdups_adj (sort (all_tri_edges F)))"

text \<open>
  \<open>std::set<Edge>\<close> is a finite set, \<open>emplace\<close> is \<open>finsert\<close>, and iterating from
  \<open>begin()\<close> to \<open>end()\<close> visits the elements in increasing order.
\<close>

definition emplace_both :: "Edge \<Rightarrow> Edge fset \<Rightarrow> Edge fset" where
  "emplace_both e Edges =
     finsert (max (fst e) (snd e), min (fst e) (snd e))
       (finsert (min (fst e) (snd e), max (fst e) (snd e)) Edges)"

definition Graph_VE :: "Vector3d list \<Rightarrow> Edge list \<Rightarrow> error + Graph" where
  "Graph_VE V E = populate V (sorted_list_of_fset (fold emplace_both E {||}))"

definition Graph_VS :: "Vector3d list \<Rightarrow> Edge fset \<Rightarrow> error + Graph" where
  "Graph_VS V E = populate V (sorted_list_of_fset (fold emplace_both (sorted_list_of_fset E) {||}))"

subsection \<open>Accessors\<close>

definition NumVertices :: "Graph \<Rightarrow> int" where
  "NumVertices G = int (length (m_Verts G))"

definition NumEdges :: "Graph \<Rightarrow> int" where
  "NumEdges G = int (length (m_Adjs G) div 2)"

definition NumAdjacents :: "Graph \<Rightarrow> int \<Rightarrow> error + int" where
  "NumAdjacents G i =
     (case vec_at (m_Idxs G) (i + 1) of
        Inl x \<Rightarrow> Inl x
      | Inr hi \<Rightarrow> (case vec_at (m_Idxs G) i of Inl x \<Rightarrow> Inl x | Inr lo \<Rightarrow> Inr (hi - lo)))"

definition GetVertex :: "Graph \<Rightarrow> int \<Rightarrow> error + Vector3d" where
  "GetVertex G i = vec_at (m_Verts G) i"

definition GetAdjacent :: "Graph \<Rightarrow> int \<Rightarrow> int \<Rightarrow> error + WEdge" where
  "GetAdjacent G node_i adj_i =
     (case vec_at (m_Idxs G) node_i of
        Inl x \<Rightarrow> Inl x
      | Inr off \<Rightarrow> vec_at (m_Adjs G) (off + adj_i))"

section \<open>Specification predicates\<close>

text \<open>
  \<open>both_orientations e\<close> is the pair of directed edges that every constructor inserts for an
  edge \<open>e\<close>, and \<open>face_edges F\<close> the list of the edges of the triangles of \<open>F\<close>, three per
  triangle. \<open>good_entry Verts u (v, w)\<close> says that \<open>v\<close> is a vertex and \<open>w\<close> the distance
  between the coordinates of \<open>u\<close> and \<open>v\<close>. \<open>stream_inv\<close> is the invariant of the streaming
  loop: the offsets written so far do not decrease and delimit, for each vertex up to
  \<open>CurNode\<close>, entries pushed with that vertex as \<open>CurVert\<close>; the offsets beyond are still 0.
  \<open>adjacency_ok\<close> is what it leaves in the graph.
\<close>

definition both_orientations :: "Edge \<Rightarrow> Edge set" where
  "both_orientations e = {(min (fst e) (snd e), max (fst e) (snd e)), (max (fst e) (snd e), min (fst e) (snd e))}"

definition face_edges :: "Triangle list \<Rightarrow> Edge list" where
  "face_edges F = concat (map (\<lambda>(f0, f1, f2). [(f0, f1), (f1, f2), (f2, f0)]) F)"

definition good_entry :: "Vector3d list \<Rightarrow> nat \<Rightarrow> WEdge \<Rightarrow> bool" where
  "good_entry Verts u e \<longleftrightarrow>
     0 \<le> fst e \<and> fst e < int (length Verts) \<and> snd e = diff_norm (Verts ! u) (Verts ! nat (fst e))"

definition stream_inv :: "Vector3d list \<Rightarrow> stream_state \<Rightarrow> bool" where
  "stream_inv Verts s \<longleftrightarrow>
     0 \<le> CurNode s \<and> nat (CurNode s) < length Verts \<and>
     length (Idxs s) = length Verts + 1 \<and>
     CurVert s = Verts ! nat (CurNode s) \<and>
     (\<forall>k. nat (CurNode s) < k \<and> k \<le> length Verts \<longrightarrow> Idxs s ! k = 0) \<and>
     (\<forall>k \<le> nat (CurNode s). 0 \<le> Idxs s ! k \<and> Idxs s ! k \<le> int (length (Adjs s))) \<and>
     (\<forall>k < nat (CurNode s). Idxs s ! k \<le> Idxs s ! (k + 1)) \<and>
     (\<forall>k < nat (CurNode s). \<forall>p. nat (Idxs s ! k) \<le> p \<and> p < nat (Idxs s ! (k + 1))
         \<longrightarrow> good_entry Verts k (Adjs s ! p)) \<and>
     (\<forall>p. nat (Idxs s ! nat (CurNode s)) \<le> p \<and> p < length (Adjs s)
         \<longrightarrow> good_entry Verts (nat (CurNode s)) (Adjs s ! p))"

definition adjacency_ok :: "Graph \<Rightarrow> bool" where
  "adjacency_ok G \<longleftrightarrow>
     length (m_Idxs G) = length (m_Verts G) + 1 \<and>
     (\<forall>u < length (m_Verts G). \<forall>j. 0 \<le> j \<and> j < m_Idxs G ! (u + 1) - m_Idxs G ! u \<longrightarrow>
        0 \<le> m_Idxs G ! u + j \<and> m_Idxs G ! u + j < int (length (m_Adjs G)) \<and>
        good_entry (m_Verts G) u (m_Adjs G ! nat (m_Idxs G ! u + j)))"

definition in_range :: "nat \<Rightarrow> int \<Rightarrow> bool" where
  "in_range n i \<longleftrightarrow> 0 \<le> i \<and> i < int n"

definition tri_in_range :: "nat \<Rightarrow> Triangle \<Rightarrow> bool" where
  "tri_in_range n t \<longleftrightarrow> (case t of (f0, f1, f2) \<Rightarrow> in_range n f0 \<and> in_range n f1 \<and> in_range n f2)"

definition edge_in_range :: "nat \<Rightarrow> Edge \<Rightarrow> bool" where
  "edge_in_range n e \<longleftrightarrow> in_range n (fst e) \<and> in_range n (snd e)"

text \<open>Example meshes and the graphs that the constructor builds from them.\<close>

definition V4 :: "Vector3d list" where
  "V4 = [vec3 0 0 0, vec3 1 0 0, vec3 0 1 0, vec3 0 0 1]"

definition V3 :: "Vector3d list" where
  "V3 = [vec3 0 0 0, vec3 1 0 0, vec3 0 1 0]"

definition G3 :: Graph where
  "G3 = \<lparr>m_Verts = V3, m_Idxs = [0, 2, 4, 6],
         m_Adjs = [(1, diff_norm (V3 ! 0) (V3 ! 1)),
                   (2, diff_norm (V3 ! 0) (V3 ! 2)),
                   (0, diff_norm (V3 ! 1) (V3 ! 0)),
                   (2, diff_norm (V3 ! 1) (V3 ! 2)),
                   (0, diff_norm (V3 ! 2) (V3 ! 0)),
                   (1, diff_norm (V3 ! 2) (V3 ! 1))]\<rparr>"

definition G4_gap :: Graph where
  "G4_gap = \<lparr>m_Verts = V4, m_Idxs = [0, 2, 3, 4, 6],
         m_Adjs = [(2, diff_norm (V4 ! 0) (V4 ! 2)),
                   (3, diff_norm (V4 ! 0) (V4 ! 3)),
                   (0, diff_norm (V4 ! 1) (V4 ! 0)),
                   (3, diff_norm (V4 ! 2) (V4 ! 3)),
                   (0, diff_norm (V4 ! 3) (V4 ! 0)),
                   (2, diff_norm (V4 ! 3) (V4 ! 2))]\<rparr>"

definition G4_tail :: Graph where
  "G4_tail = \<lparr>m_Verts = V4, m_Idxs = [0, 2, 4, 6, 0],
         m_Adjs = [(1, diff_norm (V4 ! 0) (V4 ! 1)),
                   (2, diff_norm (V4 ! 0) (V4 ! 2)),
                   (0, diff_norm (V4 ! 1) (V4 ! 0)),
                   (2, diff_norm (V4 ! 1) (V4 ! 2)),
                   (0, diff_norm (V4 ! 2) (V4 ! 0)),
                   (1, diff_norm (V4 ! 2) (V4 ! 1))]\<rparr>"




section \<open>Connected components (Graph::ConnectedComponents)\<close>

text \<open>
  \<open>ConnectedComponents\<close> has two \<open>while\<close> loops, which may a priori run forever: both are
  partial functions into \<open>option\<close>, \<open>None\<close> being a run that does not return. An access
  outside \<open>CC\<close>, \<open>Visited\<close>, \<open>m_Idxs\<close> or \<open>m_Adjs\<close> is the error \<open>OutOfBounds\<close>.
  The state of the inner loop is the arrays \<open>CC\<close> and \<open>Visited\<close> and the queue \<open>Q\<close>;
  \<open>bfs_body\<close> is one iteration of the inner loop (lines 214--227), \<open>push_adjacents\<close> its
  \<open>for\<close> loop over \<open>jj\<close>, and \<open>find_root\<close> the search of lines 200--208, which scans
  \<open>Visited\<close> from index \<open>i\<close> on and leaves \<open>Root = 0\<close> when it finds no zero.
\<close>

record bfs_state =
  CC :: "int list"
  Visited :: "int list"
  Q :: "int list"

fun push_adjacents :: "Graph \<Rightarrow> int \<Rightarrow> int list \<Rightarrow> int list \<Rightarrow> error + int list" where
  "push_adjacents G N [] Qu = Inr Qu"
| "push_adjacents G N (jj # jjs) Qu =
     (case GetAdjacent G N jj of
        Inl x \<Rightarrow> Inl x
      | Inr e \<Rightarrow> push_adjacents G N jjs (Qu @ [fst e]))"

definition bfs_body :: "Graph \<Rightarrow> int \<Rightarrow> bfs_state \<Rightarrow> error + bfs_state" where
  "bfs_body G CurCC s =
     (let N = hd (Q s); Q' = tl (Q s) in
      case vec_at (Visited s) N of
        Inl x \<Rightarrow> Inl x
      | Inr vis \<Rightarrow>
          if vis \<noteq> 0 then Inr (s\<lparr>Q := Q'\<rparr>)
          else
            (case vec_put (CC s) N CurCC of
               Inl x \<Rightarrow> Inl x
             | Inr CC' \<Rightarrow>
                 (case vec_put (Visited s) N 1 of
                    Inl x \<Rightarrow> Inl x
                  | Inr Visited' \<Rightarrow>
                      (case NumAdjacents G N of
                         Inl x \<Rightarrow> Inl x
                       | Inr DegN \<Rightarrow>
                           (case push_adjacents G N [0 .. DegN - 1] Q' of
                              Inl x \<Rightarrow> Inl x
                            | Inr Q'' \<Rightarrow> Inr \<lparr>CC = CC', Visited = Visited', Q = Q''\<rparr>)))))"

partial_function (option) bfs_loop :: "Graph \<Rightarrow> int \<Rightarrow> bfs_state \<Rightarrow> (error + bfs_state) option" where
  "bfs_loop G CurCC s =
     (if Q s = [] then Some (Inr s)
      else (case bfs_body G CurCC s of
              Inl x \<Rightarrow> Some (Inl x)
            | Inr s' \<Rightarrow> bfs_loop G CurCC s'))"

fun find_root :: "int list \<Rightarrow> int \<Rightarrow> int" where
  "find_root [] i = 0"
| "find_root (v # vs) i = (if v = 0 then i else find_root vs (i + 1))"

partial_function (option) cc_loop :: "Graph \<Rightarrow> int list \<Rightarrow> int list \<Rightarrow> int \<Rightarrow> (error + int list) option" where
  "cc_loop G CC0 Visited0 CurCC =
     (if sum_list Visited0 < NumVertices G then
        (let Root = find_root Visited0 0 in
         case bfs_loop G CurCC \<lparr>CC = CC0, Visited = Visited0, Q = [Root]\<rparr> of
           None \<Rightarrow> None
         | Some (Inl x) \<Rightarrow> Some (Inl x)
         | Some (Inr s) \<Rightarrow> cc_loop G (CC s) (Visited s) (CurCC + 1))
      else Some (Inr CC0))"

definition ConnectedComponents :: "Graph \<Rightarrow> (error + int list) option" where
  "ConnectedComponents G =
     cc_loop G (replicate (nat (NumVertices G)) 0) (replicate (nat (NumVertices G)) 0) 0"

text \<open>
  The vocabulary of the claims on \<open>ConnectedComponents\<close>: \<open>adjacent G u v\<close> says that \<open>v\<close>
  is in the adjacency list of \<open>u\<close> as the accessors read it; a CSR is well formed
  (\<open>wf_csr\<close>) when the offsets start at 0, do not decrease and end at \<open>|adj|\<close>, every
  neighbour is a vertex, and adjacency is symmetric (absence of self-loops and of duplicate
  neighbours is not needed); \<open>reachable\<close> is connection by a path, \<open>component\<close> the set of
  vertices connected to a vertex, \<open>comp_root\<close> its lowest index and \<open>num_components\<close> the
  number of components.
\<close>

definition verts :: "Graph \<Rightarrow> int set" where
  "verts G = {0 ..< NumVertices G}"

definition adjacent :: "Graph \<Rightarrow> int \<Rightarrow> int \<Rightarrow> bool" where
  "adjacent G u v \<longleftrightarrow>
     (\<exists>d j e. NumAdjacents G u = Inr d \<and> 0 \<le> j \<and> j < d \<and> GetAdjacent G u j = Inr e \<and> fst e = v)"

definition wf_csr :: "Graph \<Rightarrow> bool" where
  "wf_csr G \<longleftrightarrow>
     length (m_Idxs G) = length (m_Verts G) + 1 \<and>
     m_Idxs G ! 0 = 0 \<and>
     (\<forall>i < length (m_Verts G). m_Idxs G ! i \<le> m_Idxs G ! (i + 1)) \<and>
     m_Idxs G ! length (m_Verts G) = int (length (m_Adjs G)) \<and>
     (\<forall>e \<in> set (m_Adjs G). fst e \<in> verts G) \<and>
     (\<forall>u v. adjacent G u v \<longrightarrow> adjacent G v u)"

definition reachable :: "Graph \<Rightarrow> int \<Rightarrow> int \<Rightarrow> bool" where
  "reachable G = (adjacent G)\<^sup>*\<^sup>*"

definition component :: "Graph \<Rightarrow> int \<Rightarrow> int set" where
  "component G u = {v \<in> verts G. reachable G u v}"

definition num_components :: "Graph \<Rightarrow> nat" where
  "num_components G = card (component G ` verts G)"

definition comp_root :: "Graph \<Rightarrow> int \<Rightarrow> int" where
  "comp_root G u = Min (component G u)"

text \<open>
  \<open>nbr_list G N\<close> is the list of neighbour indices that one visit of \<open>N\<close> pushes;
  \<open>vis Vs u\<close> says that \<open>Visited[u]\<close> is not 0. \<open>bfs_inv\<close> is the invariant of the inner loop
  of the traversal from \<open>Root\<close> with label \<open>c\<close>, started with the arrays \<open>CC0\<close> and \<open>Vis0\<close>;
  \<open>bfs_measure\<close> is its variant. \<open>cc_inv\<close> is the invariant of the outer loop and
  \<open>unvisited\<close> the set that its variant counts. \<open>same_topology\<close> relates two graphs that
  differ in coordinates and weights only.
\<close>

definition nbr_list :: "Graph \<Rightarrow> int \<Rightarrow> int list" where
  "nbr_list G N =
     map (\<lambda>j. fst (m_Adjs G ! nat (m_Idxs G ! nat N + j)))
       [0 .. m_Idxs G ! (nat N + 1) - m_Idxs G ! nat N - 1]"

definition vis :: "int list \<Rightarrow> int \<Rightarrow> bool" where
  "vis Vs u \<longleftrightarrow> Vs ! nat u \<noteq> 0"

definition bfs_inv :: "Graph \<Rightarrow> int \<Rightarrow> int \<Rightarrow> int list \<Rightarrow> int list \<Rightarrow> bfs_state \<Rightarrow> bool" where
  "bfs_inv G Root c CC0 Vis0 s \<longleftrightarrow>
     length (CC s) = length (m_Verts G) \<and> length (Visited s) = length (m_Verts G) \<and>
     set (Visited s) \<subseteq> {0, 1} \<and>
     (\<forall>u\<in>verts G. vis Vis0 u \<longrightarrow> vis (Visited s) u \<and> CC s ! nat u = CC0 ! nat u) \<and>
     (\<forall>u\<in>verts G. vis (Visited s) u \<and> \<not> vis Vis0 u \<longrightarrow>
        reachable G Root u \<and> CC s ! nat u = c \<and>
        (\<forall>v. adjacent G u v \<longrightarrow> vis (Visited s) v \<or> v \<in> set (Q s))) \<and>
     (\<forall>v\<in>set (Q s). v \<in> verts G \<and> reachable G Root v) \<and>
     (vis (Visited s) Root \<or> Root \<in> set (Q s))"

definition bfs_measure :: "bfs_state \<Rightarrow> nat \<times> nat" where
  "bfs_measure s = (nat (int (length (Visited s)) - sum_list (Visited s)), length (Q s))"

definition cc_inv :: "Graph \<Rightarrow> int list \<Rightarrow> int list \<Rightarrow> int \<Rightarrow> bool" where
  "cc_inv G L Vs c \<longleftrightarrow>
     length L = length (m_Verts G) \<and> length Vs = length (m_Verts G) \<and> set Vs \<subseteq> {0, 1} \<and> 0 \<le> c \<and>
     (\<forall>u\<in>verts G. vis Vs u \<longrightarrow> (\<forall>v. adjacent G u v \<longrightarrow> vis Vs v)) \<and>
     (\<forall>u\<in>verts G. vis Vs u \<longrightarrow> 0 \<le> L ! nat u \<and> L ! nat u < c) \<and>
     (\<forall>u\<in>verts G. \<forall>v\<in>verts G. vis Vs u \<and> vis Vs v \<longrightarrow>
        (L ! nat u = L ! nat v \<longleftrightarrow> reachable G u v)) \<and>
     (\<forall>u\<in>verts G. \<forall>v\<in>verts G. vis Vs u \<and> vis Vs v \<longrightarrow>
        (L ! nat u < L ! nat v \<longleftrightarrow> comp_root G u < comp_root G v)) \<and>
     (\<forall>u\<in>verts G. \<forall>v\<in>verts G. vis Vs u \<and> \<not> vis Vs v \<longrightarrow> comp_root G u < v) \<and>
     (\<forall>l. 0 \<le> l \<and> l < c \<longrightarrow> (\<exists>u\<in>verts G. vis Vs u \<and> L ! nat u = l))"

definition unvisited :: "Graph \<Rightarrow> int list \<Rightarrow> int set" where
  "unvisited G Vs = {u \<in> verts G. \<not> vis Vs u}"

definition same_topology :: "Graph \<Rightarrow> Graph \<Rightarrow> bool" where
  "same_topology G G' \<longleftrightarrow>
     length (m_Verts G') = length (m_Verts G) \<and> m_Idxs G' = m_Idxs G \<and>
     map fst (m_Adjs G') = map fst (m_Adjs G)"

text \<open>A well-formed graph with the components \<open>{0, 1}\<close> and \<open>{2}\<close>.\<close>

definition Gw :: Graph where
  "Gw = \<lparr>m_Verts = [vec3 0 0 0, vec3 1 0 0, vec3 0 1 0], m_Idxs = [0, 1, 2, 2],
         m_Adjs = [(1, Finite 1), (0, Finite 1)]\<rparr>"

section \<open>Runs of the core under the contract of std::sort\<close>

text \<open>
  The C++ standard fixes the result of \<open>std::sort\<close> only up to the order of equivalent
  elements: the range is sorted and is a permutation of the input. \<open>Graph_VF_run\<close> is the
  constructor from a triangle list with an arbitrary such outcome \<open>ys\<close> in place of
  \<open>sort\<close>, and \<open>core_run\<close> pairs the graph with the labels of its components.
\<close>

definition std_sort_result :: "Edge list \<Rightarrow> Edge list \<Rightarrow> bool" where
  "std_sort_result xs ys \<longleftrightarrow> sorted ys \<and> mset ys = mset xs"

definition Graph_VF_run :: "Vector3d list \<Rightarrow> Triangle list \<Rightarrow> Edge list \<Rightarrow> error + Graph" where
  "Graph_VF_run V F ys = populate V (remdups_adj ys)"

definition core_run ::
  "Vector3d list \<Rightarrow> Triangle list \<Rightarrow> Edge list \<Rightarrow> error + Graph \<times> (error + int list) option" where
  "core_run V F ys =
     (case Graph_VF_run V F ys of
        Inl x \<Rightarrow> Inl x
      | Inr G \<Rightarrow> Inr (G, ConnectedComponents G))"

section \<open>Ownership of the vertex array\<close>

text \<open>
  The store for the claim on ownership. A coordinate buffer (the caller's matrix \<open>V\<close>, or
  the storage that a \<open>std::vector\<close> allocates) lives at an address of the
  store, which is the list of all buffers, the address being the position. A graph object
  holds the address of the buffer of its \<open>m_Verts\<close>. \<open>new_Graph\<close> is the constructor from a
  triangle list on a reference \<open>pV\<close> to the caller's points: \<open>m_Verts.resize(nVerts)\<close>
  allocates a new buffer at the end of the store, and the loop of lines 27--28 copies the
  rows of \<open>V\<close> into it. \<open>deref\<close> reads the value of a graph object in a store, and
  \<open>caller_write\<close> is an assignment of the caller to one of its arrays.
\<close>

type_synonym addr = nat

type_synonym store = "Vector3d list list"

record Graph_obj =
  verts_buf :: addr
  obj_Idxs :: "int list"
  obj_Adjs :: "WEdge list"

definition new_Graph :: "store \<Rightarrow> addr \<Rightarrow> Triangle list \<Rightarrow> error + store \<times> Graph_obj" where
  "new_Graph st pV F =
     (if pV < length st then
        (case Graph_VF (st ! pV) F of
           Inl x \<Rightarrow> Inl x
         | Inr G \<Rightarrow>
             Inr (st @ [m_Verts G],
                  \<lparr>verts_buf = length st, obj_Idxs = m_Idxs G, obj_Adjs = m_Adjs G\<rparr>))
      else Inl OutOfBounds)"

definition deref :: "store \<Rightarrow> Graph_obj \<Rightarrow> Graph" where
  "deref st g = \<lparr>m_Verts = st ! verts_buf g, m_Idxs = obj_Idxs g, m_Adjs = obj_Adjs g\<rparr>"

definition caller_write :: "store \<Rightarrow> addr \<Rightarrow> Vector3d list \<Rightarrow> store" where
  "caller_write st p V' = st[p := V']"

section \<open>The driver (apps/remesh.cpp)\<close>

text \<open>
  The driver \<open>main\<close> of remesh.cpp, from the parsed arguments on. The functions of the
  library that are not in the sources (\<open>LoadMesh\<close>, \<open>MaxEdgeLength\<close>, \<open>ResampleMesh\<close>,
  \<open>VoronoiFPS\<close>, \<open>MeshFromVoronoi\<close>, \<open>ReorientFaces\<close>, \<open>ExportMesh\<close>, \<open>WeightMap\<close>,
  \<open>RescaleInsideUnitBox\<close>, \<open>Evaluate\<close>) and the readings of the timer are parameters,
  collected in a record; a function that updates an argument in place returns the new
  value. \<open>ExportMesh\<close> and \<open>ExportWeightmap\<close> write files: the calls are recorded in the
  log, with what \<open>std::cout\<close> and \<open>std::cerr\<close> receive. The result of \<open>main\<close> is its
  return value with the log, or \<open>None\<close> when the construction of the graph reads out of
  bounds or \<open>ConnectedComponents\<close> does not return an array.
\<close>

record rmtArgs =
  InMesh :: string
  OutMesh :: string
  NumSamples :: int
  Resampling :: bool
  Evaluate :: bool

record Metrics =
  Hausdorff :: double
  Chamfer :: double
  MinArea :: double
  MaxArea :: double
  AvgArea :: double
  StdArea :: double
  MinQuality :: double
  MaxQuality :: double
  AvgQuality :: double
  StdQuality :: double

datatype stage = Loading | Resample | Building | Remeshing | Exporting | WeightMapping | Evaluating

datatype item = Str string | IntV int | DblV double | Endl

datatype 'w effect =
  Cout item
| Cerr item
| ExportMeshCall string "Vector3d list" "Triangle list" bool
| ExportWeightmapCall string 'w

record 'w rmt =
  LoadMesh :: "string \<Rightarrow> (Vector3d list \<times> Triangle list) option"
  MaxEdgeLength :: "Vector3d list \<Rightarrow> Triangle list \<Rightarrow> int \<Rightarrow> double"
  ResampleMesh :: "Vector3d list \<Rightarrow> Triangle list \<Rightarrow> double \<Rightarrow> Vector3d list \<times> Triangle list"
  VoronoiFPS :: "Graph \<Rightarrow> int \<Rightarrow> int list \<times> int list"
  MeshFromVoronoi :: "Graph \<Rightarrow> int list \<Rightarrow> int list \<Rightarrow> Vector3d list \<times> Triangle list"
  ReorientFaces ::
    "int list \<Rightarrow> Vector3d list \<Rightarrow> Triangle list \<Rightarrow> Vector3d list \<Rightarrow> Triangle list
       \<Rightarrow> Vector3d list \<times> Triangle list"
  ExportMesh :: "string \<Rightarrow> Vector3d list \<Rightarrow> Triangle list \<Rightarrow> bool"
  WeightMap :: "Vector3d list \<Rightarrow> Vector3d list \<Rightarrow> Triangle list \<Rightarrow> int \<Rightarrow> 'w"
  RescaleInsideUnitBox :: "Vector3d list \<Rightarrow> Vector3d list"
  rmt_Evaluate ::
    "Vector3d list \<Rightarrow> Triangle list \<Rightarrow> Vector3d list \<Rightarrow> Triangle list \<Rightarrow> int \<Rightarrow> Metrics"
  StopTimer :: "stage \<Rightarrow> double"

definition elapsed :: "double \<Rightarrow> 'w effect list" where
  "elapsed t = [Cout (Str ''Elapsed time is ''), Cout (DblV t), Cout (Str '' s.''), Cout Endl]"

text \<open>\<open>s.substr(0, s.rfind('.'))\<close>: the whole string when it has no dot.\<close>

definition rfind :: "string \<Rightarrow> char \<Rightarrow> nat option" where
  "rfind s c =
     (case filter (\<lambda>i. s ! i = c) (rev [0 ..< length s]) of
        [] \<Rightarrow> None
      | i # _ \<Rightarrow> Some i)"

definition substr_to_last_dot :: "string \<Rightarrow> string" where
  "substr_to_last_dot s = (case rfind s (CHR ''.'') of None \<Rightarrow> s | Some i \<Rightarrow> take i s)"

definition print_metrics :: "Metrics \<Rightarrow> 'w effect list" where
  "print_metrics M =
     [Cout (Str ''Hausdorff distance: ''), Cout (DblV (Hausdorff M)), Cout Endl,
      Cout (Str ''Chamfer distance:   ''), Cout (DblV (Chamfer M)), Cout Endl,
      Cout (Str ''Triangle area:''), Cout Endl,
      Cout (Str ''    Min: ''), Cout (DblV (MinArea M)), Cout Endl,
      Cout (Str ''    Max: ''), Cout (DblV (MaxArea M)), Cout Endl,
      Cout (Str ''    Avg: ''), Cout (DblV (AvgArea M)), Cout Endl,
      Cout (Str ''    Std: ''), Cout (DblV (StdArea M)), Cout Endl,
      Cout (Str ''Triangle quality:''), Cout Endl,
      Cout (Str ''    Min: ''), Cout (DblV (MinQuality M)), Cout Endl,
      Cout (Str ''    Max: ''), Cout (DblV (MaxQuality M)), Cout Endl,
      Cout (Str ''    Avg: ''), Cout (DblV (AvgQuality M)), Cout Endl,
      Cout (Str ''    Std: ''), Cout (DblV (StdQuality M)), Cout Endl]"

definition no_face_message :: string where
  "no_face_message =
     ''Sampling density is not enough to capture any face. Maybe there are too many connected components?''"

text \<open>Lines 65--78: the mesh that is remeshed, resampled on request.\<close>

definition mesh_to_process ::
  "'w rmt \<Rightarrow> rmtArgs \<Rightarrow> Vector3d list \<Rightarrow> Triangle list \<Rightarrow> Vector3d list \<times> Triangle list" where
  "mesh_to_process W Args V0 F0 =
     (if Resampling Args then
        (let MEL = MaxEdgeLength W V0 F0 (NumSamples Args) in ResampleMesh W V0 F0 MEL)
      else (V0, F0))"

text \<open>Lines 96--102: the low-resolution (dual) mesh \<open>(VV, FF)\<close>.\<close>

definition dual_mesh ::
  "'w rmt \<Rightarrow> rmtArgs \<Rightarrow> Vector3d list \<Rightarrow> Triangle list \<Rightarrow> Graph \<Rightarrow> Vector3d list \<times> Triangle list" where
  "dual_mesh W Args V F G =
     (let VFPS = VoronoiFPS W G (NumSamples Args);
          (VV, FF) = MeshFromVoronoi W G (fst VFPS) (snd VFPS)
      in ReorientFaces W (fst VFPS) V F VV FF)"

text \<open>Lines 109--162: the export, the test on \<open>FF.rows()\<close>, the weight map, the evaluation.\<close>

definition export_and_report ::
  "'w rmt \<Rightarrow> rmtArgs \<Rightarrow> Vector3d list \<Rightarrow> Triangle list \<Rightarrow> int \<Rightarrow> Vector3d list \<Rightarrow> Triangle list
     \<Rightarrow> int \<times> 'w effect list" where
  "export_and_report W Args V FOrig nVertsOrig VV FF =
     (let ok = ExportMesh W (OutMesh Args) VV FF;
          log1 = [Cout (Str ''Exporting to ''), Cout (Str (OutMesh Args)), Cout (Str ''... ''),
                  ExportMeshCall (OutMesh Args) VV FF ok]
      in if \<not> ok then (- 1, log1 @ [Cerr (Str ''Cannot write mesh.''), Cerr Endl])
         else
           (let log2 = log1 @ elapsed (StopTimer W Exporting)
            in if int (length FF) = 0 then (0, log2 @ [Cout (Str no_face_message), Cout Endl])
               else
                 (let WMap = substr_to_last_dot (OutMesh Args) @ ''.mat'';
                      Wm = WeightMap W V VV FF nVertsOrig;
                      log3 = log2 @ [Cout (Str ''Computing and exporting the weight map... ''),
                                     ExportWeightmapCall WMap Wm]
                               @ elapsed (StopTimer W WeightMapping);
                      log4 = (if Evaluate Args then
                                (let V' = RescaleInsideUnitBox W V;
                                     VV' = RescaleInsideUnitBox W VV;
                                     M = rmt_Evaluate W V' FOrig VV' FF nVertsOrig
                                 in log3 @ [Cout (Str ''Evaluating the remeshing... '')]
                                      @ elapsed (StopTimer W Evaluating) @ print_metrics M)
                              else log3)
                  in (0, log4 @ [Cout (Str ''Program terminated successfully.''), Cout Endl]))))"

definition main :: "'w rmt \<Rightarrow> rmtArgs \<Rightarrow> (int \<times> 'w effect list) option" where
  "main W Args =
     (let log0 = [Cout (Str ''Loading mesh ''), Cout (Str (InMesh Args)), Cout (Str ''... '')]
      in case LoadMesh W (InMesh Args) of
           None \<Rightarrow> Some (- 1, log0 @ [Cerr (Str ''Cannot load mesh.''), Cerr Endl])
         | Some (V0, F0) \<Rightarrow>
             (let log1 = log0 @ elapsed (StopTimer W Loading)
                    @ [Cout (Str ''Number of vertices:  ''), Cout (IntV (int (length V0))), Cout Endl,
                       Cout (Str ''Number of triangles: ''), Cout (IntV (int (length F0))), Cout Endl];
                  nVertsOrig = int (length V0);
                  FOrig = F0;
                  (V, F) = mesh_to_process W Args V0 F0;
                  TotTime1 = (if Resampling Args then fadd (Finite 0) (StopTimer W Resample) else Finite 0);
                  log2 = (if Resampling Args then
                            log1 @ [Cout (Str ''Applying resampling... '')]
                              @ elapsed (StopTimer W Resample)
                              @ [Cout (Str ''Number of vertices (after resampling):  ''),
                                 Cout (IntV (int (length V))), Cout Endl,
                                 Cout (Str ''Number of triangles (after resampling): ''),
                                 Cout (IntV (int (length F))), Cout Endl]
                          else log1)
              in case Graph_VF V F of
                   Inl x \<Rightarrow> None
                 | Inr G \<Rightarrow>
                     (case ConnectedComponents G of
                        None \<Rightarrow> None
                      | Some (Inl x) \<Rightarrow> None
                      | Some (Inr CCs) \<Rightarrow>
                          (let TotTime2 = fadd TotTime1 (StopTimer W Building);
                               NumCCs = fold (\<lambda>c m. max m c) CCs 0 + 1;
                               log3 = log2 @ [Cout (Str ''Building graph... '')]
                                        @ elapsed (StopTimer W Building)
                                        @ [Cout (Str ''Number of connected components: ''),
                                           Cout (IntV NumCCs), Cout Endl,
                                           Cout (Str ''Remeshing to ''), Cout (IntV (NumSamples Args)),
                                           Cout (Str '' vertices... '')];
                               (VV, FF) = dual_mesh W Args V F G;
                               TotTime3 = fadd TotTime2 (StopTimer W Remeshing);
                               log4 = log3 @ elapsed (StopTimer W Remeshing)
                                        @ [Cout (Str ''Total remeshing time is ''), Cout (DblV TotTime3),
                                           Cout (Str '' s.''), Cout Endl];
                               (status, log5) = export_and_report W Args V FOrig nVertsOrig VV FF
                           in Some (status, log4 @ log5)))))"

definition is_Cerr :: "'w effect \<Rightarrow> bool" where
  "is_Cerr e = (case e of Cerr _ \<Rightarrow> True | _ \<Rightarrow> False)"

definition is_ExportWeightmapCall :: "'w effect \<Rightarrow> bool" where
  "is_ExportWeightmapCall e = (case e of ExportWeightmapCall _ _ \<Rightarrow> True | _ \<Rightarrow> False)"

text \<open>
  A run of the driver on a mesh of one point and no triangle, with library functions that
  succeed: the graph of the mesh is \<open>G1\<close>, and the dual mesh has no triangle.
\<close>

definition G1 :: Graph where
  "G1 = \<lparr>m_Verts = [vec3 0 0 0], m_Idxs = [0, 0], m_Adjs = []\<rparr>"

definition W0 :: "unit rmt" where
  "W0 = \<lparr>LoadMesh = (\<lambda>_. Some ([vec3 0 0 0], [])),
         MaxEdgeLength = (\<lambda>_ _ _. Finite 0),
         ResampleMesh = (\<lambda>V F _. (V, F)),
         VoronoiFPS = (\<lambda>_ _. ([0], [0])),
         MeshFromVoronoi = (\<lambda>_ _ _. ([vec3 0 0 0], [])),
         ReorientFaces = (\<lambda>_ _ _ VV FF. (VV, FF)),
         ExportMesh = (\<lambda>_ _ _. True),
         WeightMap = (\<lambda>_ _ _ _. ()),
         RescaleInsideUnitBox = (\<lambda>V. V),
         rmt_Evaluate = (\<lambda>_ _ _ _ _. \<lparr>Hausdorff = Finite 0, Chamfer = Finite 0,
            MinArea = Finite 0, MaxArea = Finite 0, AvgArea = Finite 0, StdArea = Finite 0,
            MinQuality = Finite 0, MaxQuality = Finite 0, AvgQuality = Finite 0,
            StdQuality = Finite 0\<rparr>),
         StopTimer = (\<lambda>_. Finite 0)\<rparr>"

definition Args0 :: rmtArgs where
  "Args0 = \<lparr>InMesh = ''in.obj'', OutMesh = ''out.obj'', NumSamples = 1, Resampling = False,
            Evaluate = False\<rparr>"

section \<open>Properties of the constructors\<close>

lemma sorted_distinct_remdups_adj:
  fixes xs :: "'a::linorder list"
  shows "sorted xs \<Longrightarrow> distinct (remdups_adj xs)"
proof (induction xs rule: remdups_adj.induct)
  case (3 x y xs)
  then show ?case by (auto simp: less_le)
qed simp_all

lemma unique_sort_is_set_iteration:
  fixes xs :: "'a::linorder list"
  assumes "fset S = set xs"
  shows "remdups_adj (sort xs) = sorted_list_of_fset S"
proof (rule sorted_distinct_set_unique)
  show "sorted (remdups_adj (sort xs))" by simp
  show "distinct (remdups_adj (sort xs))" by (simp add: sorted_distinct_remdups_adj)
  show "sorted (sorted_list_of_fset S)" by (simp add: sorted_list_of_fset.rep_eq)
  show "distinct (sorted_list_of_fset S)" by (simp add: sorted_list_of_fset.rep_eq)
  show "set (remdups_adj (sort xs)) = set (sorted_list_of_fset S)" using assms by simp
qed

lemma fset_fold_emplace_both:
  "fset (fold emplace_both E S) = fset S \<union> (\<Union>e\<in>set E. both_orientations e)"
  by (induction E arbitrary: S) (auto simp: emplace_both_def both_orientations_def)

lemma set_tri_edges:
  "set (tri_edges (f0, f1, f2)) =
     both_orientations (f0, f1) \<union> both_orientations (f1, f2) \<union> both_orientations (f2, f0)"
  unfolding both_orientations_def by (simp add: insert_commute)

lemma set_all_tri_edges: "set (all_tri_edges F) = (\<Union>e\<in>set (face_edges F). both_orientations e)"
proof (induction F)
  case Nil
  show ?case by (simp add: all_tri_edges_def face_edges_def)
next
  case (Cons t F)
  obtain f0 f1 f2 where t: "t = (f0, f1, f2)" by (cases t)
  have a: "set (all_tri_edges (t # F)) = set (tri_edges t) \<union> set (all_tri_edges F)"
    by (simp add: all_tri_edges_def)
  have b: "(\<Union>e\<in>set (face_edges (t # F)). both_orientations e) =
      (both_orientations (f0, f1) \<union> both_orientations (f1, f2) \<union> both_orientations (f2, f0))
      \<union> (\<Union>e\<in>set (face_edges F). both_orientations e)"
    unfolding t face_edges_def by (simp add: Un_assoc)
  show ?case unfolding a b unfolding t set_tri_edges Cons.IH ..
qed

text \<open>
  Claim C4. The three constructors normalise to the same representation: for every vertex
  array \<open>V\<close> and triangle list \<open>F\<close>, building the graph from \<open>F\<close>, from the list of the
  edges of \<open>F\<close> (\<open>face_edges F\<close>) or from the set of these edges gives the same result:
  the same vertex, offset and adjacency arrays, weights and order included (and the same
  out-of-bounds failure when there is one).
\<close>

theorem constructors_agree:
  "Graph_VE V (face_edges F) = Graph_VF V F \<and> Graph_VS V (fset_of_list (face_edges F)) = Graph_VF V F"
proof -
  have 1: "fset (fold emplace_both (face_edges F) {||}) = set (all_tri_edges F)"
    by (simp add: fset_fold_emplace_both set_all_tri_edges)
  have 2: "fset (fold emplace_both (sorted_list_of_fset (fset_of_list (face_edges F))) {||}) = set (all_tri_edges F)"
    by (simp add: fset_fold_emplace_both set_all_tri_edges fset_of_list.rep_eq)
  show ?thesis
    unfolding Graph_VE_def Graph_VS_def Graph_VF_def
    using unique_sort_is_set_iteration[OF 1] unique_sort_is_set_iteration[OF 2] by simp
qed

lemma advance_Adjs: "advance Verts first s = Inr s' \<Longrightarrow> Adjs s' = Adjs s"
  by (auto simp: advance_def split: if_splits sum.splits)

lemma advance_inv:
  assumes inv: "stream_inv Verts s" and adv: "advance Verts first s = Inr s'"
  shows "stream_inv Verts s'"
proof (cases "first = CurNode s")
  case True
  with adv inv show ?thesis by (simp add: advance_def)
next
  case False
  define c where "c = nat (CurNode s)"
  define I where "I = Idxs s"
  define A where "A = Adjs s"
  have c0: "0 \<le> CurNode s" and cn: "c < length Verts" and lenI: "length I = length Verts + 1"
    and zero: "\<And>k. c < k \<Longrightarrow> k \<le> length Verts \<Longrightarrow> I ! k = 0"
    and bnd: "\<And>k. k \<le> c \<Longrightarrow> 0 \<le> I ! k \<and> I ! k \<le> int (length A)"
    and mono: "\<And>k. k < c \<Longrightarrow> I ! k \<le> I ! (k + 1)"
    and old: "\<And>k p. k < c \<Longrightarrow> nat (I ! k) \<le> p \<Longrightarrow> p < nat (I ! (k + 1)) \<Longrightarrow> good_entry Verts k (A ! p)"
    and cur: "\<And>p. nat (I ! c) \<le> p \<Longrightarrow> p < length A \<Longrightarrow> good_entry Verts c (A ! p)"
    using inv unfolding stream_inv_def c_def I_def A_def by blast+
  from adv False have in1: "CurNode s + 1 < int (length Verts)"
    and s': "s' = s\<lparr>CurNode := CurNode s + 1, CurVert := Verts ! nat (CurNode s + 1),
                    Idxs := I[nat (CurNode s + 1) := int (length A)]\<rparr>"
    by (auto simp: advance_def vec_put_def vec_at_def I_def A_def split: if_splits sum.splits)
  have nc: "nat (CurNode s + 1) = c + 1" using c0 by (simp add: c_def nat_add_distrib)
  have c1: "c + 1 < length Verts" using in1 nc by linarith
  let ?I = "I[c + 1 := int (length A)]"
  have s'': "CurNode s' = CurNode s + 1" "CurVert s' = Verts ! (c + 1)" "Idxs s' = ?I" "Adjs s' = A"
    using s' nc by (simp_all add: A_def)
  have I_le: "\<And>k. k \<le> c \<Longrightarrow> ?I ! k = I ! k" by simp
  have I_c1: "?I ! (c + 1) = int (length A)" using lenI c1 by simp
  show ?thesis
    unfolding stream_inv_def s'' nc
  proof (intro conjI allI impI)
    show "0 \<le> CurNode s + 1" using c0 by simp
    show "c + 1 < length Verts" by (rule c1)
    show "length ?I = length Verts + 1" using lenI by simp
    show "Verts ! (c + 1) = Verts ! (c + 1)" ..
  next
    fix k assume "c + 1 < k \<and> k \<le> length Verts"
    then show "?I ! k = 0" using zero[of k] by simp
  next
    fix k assume "k \<le> c + 1"
    then show "0 \<le> ?I ! k" using bnd[of k] I_c1 by (cases "k = c + 1") auto
  next
    fix k assume "k \<le> c + 1"
    then show "?I ! k \<le> int (length A)" using bnd[of k] I_c1 by (cases "k = c + 1") auto
  next
    fix k assume "k < c + 1"
    then show "?I ! k \<le> ?I ! (k + 1)"
      using mono[of k] bnd[of c] I_c1 by (cases "k = c") auto
  next
    fix k p assume k: "k < c + 1" and p: "nat (?I ! k) \<le> p \<and> p < nat (?I ! (k + 1))"
    show "good_entry Verts k (A ! p)"
    proof (cases "k = c")
      case True
      with p I_c1 show ?thesis using cur[of p] by simp
    next
      case False
      with k have "k < c" by simp
      with p show ?thesis using old[of k p] by simp
    qed
  next
    fix p assume "nat (?I ! (c + 1)) \<le> p \<and> p < length A"
    then show "good_entry Verts (c + 1) (A ! p)" using I_c1 by linarith
  qed
qed

lemma stream_body_inv:
  assumes inv: "stream_inv Verts s" and body: "stream_body Verts e s = Inr s'"
  shows "stream_inv Verts s'"
proof -
  from body obtain s1 where adv: "advance Verts (fst e) s = Inr s1"
    and in2: "0 \<le> snd e" "snd e < int (length Verts)"
    and s': "s' = s1\<lparr>Adjs := Adjs s1 @ [(snd e, diff_norm (CurVert s1) (Verts ! nat (snd e)))]\<rparr>"
    by (auto simp: stream_body_def Let_def vec_at_def split: sum.splits if_splits)
  have inv1: "stream_inv Verts s1" by (rule advance_inv[OF inv adv])
  let ?new = "(snd e, diff_norm (CurVert s1) (Verts ! nat (snd e)))"
  have new: "good_entry Verts (nat (CurNode s1)) ?new"
    using inv1 in2 by (simp add: good_entry_def stream_inv_def)
  have flds: "CurNode s' = CurNode s1" "CurVert s' = CurVert s1" "Idxs s' = Idxs s1"
    "Adjs s' = Adjs s1 @ [?new]"
    using s' by simp_all
  have bnd: "\<And>k. k \<le> nat (CurNode s1) \<Longrightarrow> Idxs s1 ! k \<le> int (length (Adjs s1))"
    and mono: "\<And>k. k < nat (CurNode s1) \<Longrightarrow> Idxs s1 ! k \<le> Idxs s1 ! (k + 1)"
    using inv1 unfolding stream_inv_def by blast+
  show ?thesis
    unfolding stream_inv_def flds
  proof (intro conjI allI impI)
    fix k p
    assume k: "k < nat (CurNode s1)"
      and p: "nat (Idxs s1 ! k) \<le> p \<and> p < nat (Idxs s1 ! (k + 1))"
    from k bnd[of "k + 1"] p have "p < length (Adjs s1)" by linarith
    then show "good_entry Verts k ((Adjs s1 @ [?new]) ! p)"
      using inv1 k p unfolding stream_inv_def by (simp add: nth_append)
  next
    fix p
    assume p: "nat (Idxs s1 ! nat (CurNode s1)) \<le> p \<and> p < length (Adjs s1 @ [?new])"
    show "good_entry Verts (nat (CurNode s1)) ((Adjs s1 @ [?new]) ! p)"
    proof (cases "p < length (Adjs s1)")
      case True
      then show ?thesis using inv1 p unfolding stream_inv_def by (simp add: nth_append)
    next
      case False
      with p have "p = length (Adjs s1)" by simp
      then show ?thesis using new by simp
    qed
  next
    fix k assume "k \<le> nat (CurNode s1)"
    then show "Idxs s1 ! k \<le> int (length (Adjs s1 @ [?new]))" using bnd[of k] by simp
  qed (use inv1 in \<open>auto simp: stream_inv_def\<close>)
qed

lemma stream_loop_inv:
  "stream_inv Verts s \<Longrightarrow> stream_loop Verts es s = Inr s' \<Longrightarrow> stream_inv Verts s'"
proof (induction es arbitrary: s)
  case Nil
  then show ?case by simp
next
  case (Cons e es)
  then show ?case by (auto split: sum.splits dest: stream_body_inv)
qed

lemma stream_inv_init:
  "V \<noteq> [] \<Longrightarrow>
   stream_inv V \<lparr>CurNode = 0, CurVert = V ! 0, Idxs = replicate (length V + 1) 0, Adjs = []\<rparr>"
proof -
  assume ne: "V \<noteq> []"
  have z: "replicate (length V + 1) (0::int) ! k = 0" if "k \<le> length V" for k
    using that nth_replicate[of k "length V + 1" "0::int"] by simp
  show ?thesis unfolding stream_inv_def using ne z by (simp del: replicate.simps replicate_Suc)
qed

lemma populate_Inr:
  assumes "populate V es = Inr G"
  obtains s where "V \<noteq> []"
    and "stream_loop V es \<lparr>CurNode = 0, CurVert = V ! 0, Idxs = replicate (length V + 1) 0, Adjs = []\<rparr> = Inr s"
    and "G = \<lparr>m_Verts = V, m_Idxs = (Idxs s)[nat (CurNode s + 1) := int (length (Adjs s))], m_Adjs = Adjs s\<rparr>"
    and "stream_inv V s"
proof -
  from assms have ne: "V \<noteq> []"
    by (auto simp: populate_def Let_def vec_at_def split: sum.splits if_splits)
  from assms ne obtain s where
    loop: "stream_loop V es \<lparr>CurNode = 0, CurVert = V ! 0, Idxs = replicate (length V + 1) 0, Adjs = []\<rparr> = Inr s"
    and G: "G = \<lparr>m_Verts = V, m_Idxs = (Idxs s)[nat (CurNode s + 1) := int (length (Adjs s))], m_Adjs = Adjs s\<rparr>"
    by (auto simp: populate_def Let_def vec_at_def vec_put_def split: sum.splits if_splits)
  have "stream_inv V s" by (rule stream_loop_inv[OF stream_inv_init[OF ne] loop])
  with ne loop G show ?thesis by (rule that)
qed

lemma populate_adjacency_ok:
  assumes "populate V es = Inr G"
  shows "m_Verts G = V \<and> adjacency_ok G"
proof -
  from assms obtain s where ne: "V \<noteq> []"
    and G: "G = \<lparr>m_Verts = V, m_Idxs = (Idxs s)[nat (CurNode s + 1) := int (length (Adjs s))], m_Adjs = Adjs s\<rparr>"
    and inv: "stream_inv V s"
    by (rule populate_Inr)
  define c where "c = nat (CurNode s)"
  define I where "I = Idxs s"
  define A where "A = Adjs s"
  have c0: "0 \<le> CurNode s" and cn: "c < length V" and lenI: "length I = length V + 1"
    and zero: "\<And>k. c < k \<Longrightarrow> k \<le> length V \<Longrightarrow> I ! k = 0"
    and bnd: "\<And>k. k \<le> c \<Longrightarrow> 0 \<le> I ! k \<and> I ! k \<le> int (length A)"
    and mono: "\<And>k. k < c \<Longrightarrow> I ! k \<le> I ! (k + 1)"
    and old: "\<And>k p. k < c \<Longrightarrow> nat (I ! k) \<le> p \<Longrightarrow> p < nat (I ! (k + 1)) \<Longrightarrow> good_entry V k (A ! p)"
    and cur: "\<And>p. nat (I ! c) \<le> p \<Longrightarrow> p < length A \<Longrightarrow> good_entry V c (A ! p)"
    using inv unfolding stream_inv_def c_def I_def A_def by blast+
  have nc: "nat (CurNode s + 1) = c + 1" using c0 by (simp add: c_def nat_add_distrib)
  let ?I = "I[c + 1 := int (length A)]"
  have flds: "m_Verts G = V" "m_Idxs G = ?I" "m_Adjs G = A"
    using G nc by (simp_all add: I_def A_def)
  have I_c1: "?I ! (c + 1) = int (length A)" using lenI cn by simp
  have "adjacency_ok G"
    unfolding adjacency_ok_def flds
  proof (intro conjI allI impI)
    show "length ?I = length V + 1" using lenI by simp
  next
    fix u j
    assume u: "u < length V" and j: "0 \<le> j \<and> j < ?I ! (u + 1) - ?I ! u"
    have "0 \<le> ?I ! u + j \<and> ?I ! u + j < int (length A) \<and> good_entry V u (A ! nat (?I ! u + j))"
    proof -
      consider "u < c" | "u = c" | "u = c + 1" | "c + 1 < u" by linarith
      then show ?thesis
      proof cases
        case 1
        then have e: "?I ! u = I ! u" "?I ! (u + 1) = I ! (u + 1)" by simp_all
        have b: "0 \<le> I ! u" "I ! (u + 1) \<le> int (length A)" using bnd[of u] bnd[of "u + 1"] 1 by simp_all
        have "nat (I ! u) \<le> nat (I ! u + j)" "nat (I ! u + j) < nat (I ! (u + 1))"
          using j e b by linarith+
        then have "good_entry V u (A ! nat (I ! u + j))"
          using old[of u "nat (I ! u + j)"] 1 by simp
        then show ?thesis using j e b by simp
      next
        case 2
        then have e: "?I ! u = I ! c" "?I ! (u + 1) = int (length A)" using I_c1 by simp_all
        have b: "0 \<le> I ! c" using bnd[of c] by simp
        have "nat (I ! c) \<le> nat (I ! c + j)" "nat (I ! c + j) < length A"
          using j e b by linarith+
        then have "good_entry V u (A ! nat (I ! c + j))"
          using cur[of "nat (I ! c + j)"] 2 by simp
        then show ?thesis using j e b by simp
      next
        case 3
        then have "?I ! u = int (length A)" using I_c1 by simp
        moreover have "?I ! (u + 1) = 0" using zero[of "u + 1"] 3 u by simp
        ultimately have False using j by linarith
        then show ?thesis ..
      next
        case 4
        then have "?I ! u = 0" "?I ! (u + 1) = 0" using zero[of u] zero[of "u + 1"] u by simp_all
        then have False using j by linarith
        then show ?thesis ..
      qed
    qed
    then show "0 \<le> ?I ! u + j" "?I ! u + j < int (length A)"
      "good_entry V u (A ! nat (?I ! u + j))" by simp_all
  qed
  with flds show ?thesis by simp
qed


lemma stream_body_CurNode:
  "stream_body Verts e s = Inr s' \<Longrightarrow>
   CurNode s' = (if fst e \<noteq> CurNode s then CurNode s + 1 else CurNode s)"
  by (auto simp: stream_body_def advance_def Let_def split: sum.splits if_splits)

lemma stream_body_succeeds:
  assumes inv: "stream_inv Verts s"
    and e: "CurNode s \<le> fst e" "fst e < int (length Verts)" "in_range (length Verts) (snd e)"
  shows "\<exists>s'. stream_body Verts e s = Inr s'"
proof -
  have len: "length (Idxs s) = length Verts + 1" and c0: "0 \<le> CurNode s"
    using inv by (simp_all add: stream_inv_def)
  have "\<exists>s1. advance Verts (fst e) s = Inr s1"
    using e c0 len by (simp add: advance_def vec_put_def vec_at_def)
  then show ?thesis using e by (auto simp: stream_body_def Let_def vec_at_def in_range_def)
qed

lemma stream_loop_succeeds:
  assumes "stream_inv Verts s" and "sorted (map fst es)"
    and "\<forall>e\<in>set es. CurNode s \<le> fst e \<and> fst e < int (length Verts) \<and> in_range (length Verts) (snd e)"
  shows "\<exists>s'. stream_loop Verts es s = Inr s'"
  using assms
proof (induction es arbitrary: s)
  case Nil
  then show ?case by simp
next
  case (Cons e es)
  from Cons.prems obtain s1 where s1: "stream_body Verts e s = Inr s1"
    using stream_body_succeeds[of Verts s e] by auto
  have inv1: "stream_inv Verts s1" using Cons.prems(1) s1 by (rule stream_body_inv)
  have c1: "CurNode s1 \<le> fst e" using stream_body_CurNode[OF s1] Cons.prems(3) by auto
  have "\<forall>e'\<in>set es. CurNode s1 \<le> fst e' \<and> fst e' < int (length Verts) \<and> in_range (length Verts) (snd e')"
    using Cons.prems(2,3) c1 by fastforce
  moreover have "sorted (map fst es)" using Cons.prems(2) by simp
  ultimately obtain s' where "stream_loop Verts es s1 = Inr s'" using Cons.IH[OF inv1] by blast
  then show ?case using s1 by simp
qed

lemma populate_succeeds:
  assumes "V \<noteq> []" and "sorted es"
    and "\<forall>e\<in>set es. in_range (length V) (fst e) \<and> in_range (length V) (snd e)"
  shows "\<exists>G. populate V es = Inr G"
proof -
  let ?s0 = "\<lparr>CurNode = 0, CurVert = V ! 0, Idxs = replicate (length V + 1) 0, Adjs = []\<rparr>"
  have inv0: "stream_inv V ?s0" using assms(1) by (rule stream_inv_init)
  have "sorted (map fst es)" using assms(2)
    by (induction es) (auto simp: less_eq_prod_def)
  then obtain s where s: "stream_loop V es ?s0 = Inr s"
    using stream_loop_succeeds[OF inv0, of es] assms(3) by (auto simp: in_range_def)
  have inv: "stream_inv V s" by (rule stream_loop_inv[OF inv0 s])
  then have "0 \<le> CurNode s + 1 \<and> CurNode s + 1 < int (length (Idxs s))"
    by (auto simp: stream_inv_def)
  then show ?thesis using assms(1) s
    by (simp add: populate_def Let_def vec_at_def vec_put_def)
qed

lemma populate_empty: "populate [] es = Inl OutOfBounds"
  by (simp add: populate_def vec_at_def)

lemma both_orientations_in_range:
  "edge_in_range n e \<Longrightarrow> e' \<in> both_orientations e \<Longrightarrow> edge_in_range n e'"
  by (auto simp: both_orientations_def edge_in_range_def min_def max_def)

lemma all_tri_edges_in_range:
  assumes "\<forall>t\<in>set F. tri_in_range n t" and "e \<in> set (all_tri_edges F)"
  shows "edge_in_range n e"
proof -
  from assms(2) obtain e0 where e0: "e0 \<in> set (face_edges F)" "e \<in> both_orientations e0"
    unfolding set_all_tri_edges by blast
  from e0(1) assms(1) have "edge_in_range n e0"
    by (fastforce simp: face_edges_def tri_in_range_def edge_in_range_def)
  then show ?thesis using e0(2) by (rule both_orientations_in_range)
qed

lemma emplaced_in_range:
  assumes "\<forall>e\<in>set E. edge_in_range n e" and "e \<in> fset (fold emplace_both E {||})"
  shows "edge_in_range n e"
  using assms unfolding fset_fold_emplace_both by (auto dest: both_orientations_in_range)

text \<open>
  Claim C9. Every constructor reads \<open>m_Verts[0]\<close> before it streams the edges: on an empty
  vertex array the read is out of bounds, whatever the edges are. With a non-empty vertex array
  and all triangle or edge indices in \<open>[0, n)\<close>, no access made during construction is out of
  bounds: the construction returns a graph.
\<close>

theorem construction_in_bounds:
  assumes "V \<noteq> []"
    and "\<forall>t\<in>set F. tri_in_range (length V) t"
    and "\<forall>e\<in>set E. edge_in_range (length V) e"
    and "\<forall>e\<in>fset S. edge_in_range (length V) e"
  shows "(\<exists>G. Graph_VF V F = Inr G) \<and> (\<exists>G. Graph_VE V E = Inr G) \<and> (\<exists>G. Graph_VS V S = Inr G) \<and>
         Graph_VF [] F = Inl OutOfBounds \<and> Graph_VE [] E = Inl OutOfBounds \<and>
         Graph_VS [] S = Inl OutOfBounds"
proof -
  have 1: "\<exists>G. Graph_VF V F = Inr G"
    unfolding Graph_VF_def
  proof (rule populate_succeeds[OF assms(1)])
    show "sorted (remdups_adj (sort (all_tri_edges F)))" by simp
    show "\<forall>e\<in>set (remdups_adj (sort (all_tri_edges F))). in_range (length V) (fst e) \<and> in_range (length V) (snd e)"
      using all_tri_edges_in_range[OF assms(2)] by (simp add: edge_in_range_def)
  qed
  have 2: "\<exists>G. Graph_VE V E = Inr G"
    unfolding Graph_VE_def
  proof (rule populate_succeeds[OF assms(1)])
    show "sorted (sorted_list_of_fset (fold emplace_both E {||}))"
      by (simp add: sorted_list_of_fset.rep_eq)
    show "\<forall>e\<in>set (sorted_list_of_fset (fold emplace_both E {||})). in_range (length V) (fst e) \<and> in_range (length V) (snd e)"
      using emplaced_in_range[OF assms(3)] by (simp add: edge_in_range_def)
  qed
  have 3: "\<exists>G. Graph_VS V S = Inr G"
    unfolding Graph_VS_def
  proof (rule populate_succeeds[OF assms(1)])
    show "sorted (sorted_list_of_fset (fold emplace_both (sorted_list_of_fset S) {||}))"
      by (simp add: sorted_list_of_fset.rep_eq)
    have "\<forall>e\<in>set (sorted_list_of_fset S). edge_in_range (length V) e" using assms(4) by simp
    from emplaced_in_range[OF this]
    show "\<forall>e\<in>set (sorted_list_of_fset (fold emplace_both (sorted_list_of_fset S) {||})). in_range (length V) (fst e) \<and> in_range (length V) (snd e)"
      by (simp add: edge_in_range_def)
  qed
  from 1 2 3 show ?thesis
    by (simp add: Graph_VF_def Graph_VE_def Graph_VS_def populate_empty)
qed

lemma stream_loop_snd_in_range:
  "stream_loop Verts es s = Inr s' \<Longrightarrow> \<forall>e\<in>set es. in_range (length Verts) (snd e)"
proof (induction es arbitrary: s)
  case Nil
  then show ?case by simp
next
  case (Cons e es)
  from Cons.prems obtain s1 where s1: "stream_body Verts e s = Inr s1"
    and rest: "stream_loop Verts es s1 = Inr s'"
    by (auto split: sum.splits)
  from s1 have "in_range (length Verts) (snd e)"
    by (auto simp: stream_body_def Let_def vec_at_def in_range_def split: sum.splits if_splits)
  with Cons.IH[OF rest] show ?case by simp
qed

lemma both_orientations_swap:
  "(a, b) \<in> both_orientations e \<Longrightarrow> (b, a) \<in> both_orientations e"
  by (auto simp: both_orientations_def min_def max_def split: if_splits)

lemma all_tri_edges_swap:
  "(a, b) \<in> set (all_tri_edges F) \<Longrightarrow> (b, a) \<in> set (all_tri_edges F)"
  unfolding set_all_tri_edges by (blast intro: both_orientations_swap)

lemma stream_loop_no_gap:
  assumes "stream_inv Verts s" and "sorted (map fst es)"
    and "\<forall>e\<in>set es. CurNode s \<le> fst e"
    and "\<forall>k. CurNode s < k \<and> k < int (length Verts) \<longrightarrow> k \<in> fst ` set es"
    and "stream_loop Verts es s = Inr s'"
  shows "CurNode s' = int (length Verts) - 1"
  using assms
proof (induction es arbitrary: s)
  case Nil
  have "CurNode s < int (length Verts)" using Nil.prems(1) by (auto simp: stream_inv_def)
  moreover have "\<not> CurNode s + 1 < int (length Verts)" using Nil.prems(4) by force
  moreover have "s' = s" using Nil.prems(5) by simp
  ultimately show ?case by simp
next
  case (Cons e es)
  from Cons.prems(5) obtain s1 where s1: "stream_body Verts e s = Inr s1"
    and rest: "stream_loop Verts es s1 = Inr s'"
    by (auto split: sum.splits)
  have inv1: "stream_inv Verts s1" using Cons.prems(1) s1 by (rule stream_body_inv)
  have srt: "sorted (map fst es)" and le: "\<forall>e'\<in>set es. fst e \<le> fst e'"
    using Cons.prems(2) by auto
  have c1: "CurNode s1 = fst e"
  proof (cases "fst e = CurNode s")
    case True
    then show ?thesis using stream_body_CurNode[OF s1] by simp
  next
    case False
    then have c: "CurNode s1 = CurNode s + 1" using stream_body_CurNode[OF s1] by simp
    have "CurNode s1 < int (length Verts)" using inv1 by (auto simp: stream_inv_def)
    then have "CurNode s + 1 \<in> fst ` set (e # es)" using Cons.prems(4) c by simp
    then have "fst e \<le> CurNode s + 1" using le by auto
    moreover have "CurNode s < fst e" using False Cons.prems(3) by force
    ultimately show ?thesis using c by simp
  qed
  have lower: "\<forall>e'\<in>set es. CurNode s1 \<le> fst e'" using le c1 by simp
  have cover: "\<forall>k. CurNode s1 < k \<and> k < int (length Verts) \<longrightarrow> k \<in> fst ` set es"
  proof (intro allI impI)
    fix k assume k: "CurNode s1 < k \<and> k < int (length Verts)"
    have "CurNode s \<le> CurNode s1" using stream_body_CurNode[OF s1] by simp
    with k have "k \<in> fst ` set (e # es)" using Cons.prems(4) by simp
    with k c1 show "k \<in> fst ` set es" by auto
  qed
  show ?case by (rule Cons.IH[OF inv1 srt lower cover rest])
qed

lemma sorted_map_fst:
  fixes es :: "Edge list"
  shows "sorted es \<Longrightarrow> sorted (map fst es)"
  by (induction es) (auto simp: less_eq_prod_def)

text \<open>
  Claim C8. For a graph built from a triangle list in which every vertex index in \<open>[0, n)\<close>
  is the first endpoint of some directed edge, the accessors are in bounds at every vertex
  \<open>i\<close>: \<open>NumAdjacents(i)\<close> reads inside \<open>m_Idxs\<close> and is non-negative, and
  \<open>GetAdjacent(i, j)\<close> indexes inside \<open>m_Adjs\<close> for every \<open>0 \<le> j < NumAdjacents(i)\<close>.
\<close>

theorem accessors_in_bounds:
  assumes built: "Graph_VF V F = Inr G"
    and cover: "\<forall>i. 0 \<le> i \<and> i < NumVertices G \<longrightarrow> i \<in> fst ` set (all_tri_edges F)"
  shows "\<forall>i. 0 \<le> i \<and> i < NumVertices G \<longrightarrow>
           (\<exists>d. NumAdjacents G i = Inr d \<and> 0 \<le> d \<and>
                (\<forall>j. 0 \<le> j \<and> j < d \<longrightarrow> (\<exists>e. GetAdjacent G i j = Inr e)))"
proof -
  let ?es = "remdups_adj (sort (all_tri_edges F))"
  let ?s0 = "\<lparr>CurNode = 0, CurVert = V ! 0, Idxs = replicate (length V + 1) 0, Adjs = []\<rparr>"
  from built have pop: "populate V ?es = Inr G" by (simp add: Graph_VF_def)
  then obtain s where ne: "V \<noteq> []"
    and loop: "stream_loop V ?es ?s0 = Inr s"
    and G: "G = \<lparr>m_Verts = V, m_Idxs = (Idxs s)[nat (CurNode s + 1) := int (length (Adjs s))], m_Adjs = Adjs s\<rparr>"
    and inv: "stream_inv V s"
    by (rule populate_Inr)
  have ok: "adjacency_ok G" and VG: "m_Verts G = V" using populate_adjacency_ok[OF pop] by simp_all
  have snd_ok: "\<forall>e\<in>set (all_tri_edges F). in_range (length V) (snd e)"
    using stream_loop_snd_in_range[OF loop] by simp
  have fst_ok: "\<forall>e\<in>set ?es. CurNode ?s0 \<le> fst e"
  proof
    fix e assume "e \<in> set ?es"
    then have "(snd e, fst e) \<in> set (all_tri_edges F)" using all_tri_edges_swap[of "fst e" "snd e" F] by simp
    with snd_ok show "CurNode ?s0 \<le> fst e" by (force simp: in_range_def)
  qed
  have cov: "\<forall>k. CurNode ?s0 < k \<and> k < int (length V) \<longrightarrow> k \<in> fst ` set ?es"
    using cover VG by (simp add: NumVertices_def)
  have last: "CurNode s = int (length V) - 1"
    by (rule stream_loop_no_gap[OF stream_inv_init[OF ne] sorted_map_fst fst_ok cov loop]) simp
  define I where "I = m_Idxs G"
  have lenI: "length I = length V + 1" using ok VG by (simp add: adjacency_ok_def I_def)
  have mono: "I ! u \<le> I ! (u + 1)" if "u < length V" for u
  proof (cases "u + 1 < length V")
    case True
    then have "u < nat (CurNode s)" using last by simp
    moreover have "nat (CurNode s + 1) = length V" using last by simp
    ultimately show ?thesis using inv True unfolding I_def G stream_inv_def by simp
  next
    case False
    with that have u: "u = nat (CurNode s)" "nat (CurNode s + 1) = u + 1" "u + 1 = length V"
      using last by simp_all
    have "Idxs s ! u \<le> int (length (Adjs s))" "length (Idxs s) = length V + 1"
      using inv u(1) unfolding stream_inv_def by simp_all
    then show ?thesis unfolding I_def G using u by simp
  qed
  show ?thesis
  proof (intro allI impI)
    fix i assume i: "0 \<le> i \<and> i < NumVertices G"
    define u where "u = nat i"
    have u: "u < length V" "i = int u" using i VG by (auto simp: u_def NumVertices_def)
    have d: "NumAdjacents G i = Inr (I ! (u + 1) - I ! u)"
      using u lenI by (simp add: NumAdjacents_def vec_at_def I_def[symmetric] nat_add_distrib)
    have "\<exists>e. GetAdjacent G i j = Inr e" if "0 \<le> j \<and> j < I ! (u + 1) - I ! u" for j
    proof -
      have "0 \<le> I ! u + j \<and> I ! u + j < int (length (m_Adjs G))"
        using ok u(1) that VG unfolding adjacency_ok_def I_def by blast
      then show ?thesis using u lenI by (simp add: GetAdjacent_def vec_at_def I_def[symmetric])
    qed
    with d mono[OF u(1)] show "\<exists>d. NumAdjacents G i = Inr d \<and> 0 \<le> d \<and>
                (\<forall>j. 0 \<le> j \<and> j < d \<longrightarrow> (\<exists>e. GetAdjacent G i j = Inr e))"
      by simp
  qed
qed

lemma sorted_edges_012:
  "remdups_adj (sort (all_tri_edges [(0, 1, 2)])) = [(0, 1), (0, 2), (1, 0), (1, 2), (2, 0), (2, 1)]"
  by (simp add: all_tri_edges_def)

lemma Graph_VF_V3: "Graph_VF V3 [(0, 1, 2)] = Inr G3"
  unfolding Graph_VF_def sorted_edges_012
  by (simp add: populate_def V3_def G3_def vec_at_def vec_put_def stream_body_def advance_def)


subsection \<open>The weights in double precision\<close>



























text \<open>
  In the normal range a rounding moves a value by at most \<open>2^-53\<close> of its magnitude.
\<close>

lemma round_half_even_close: "\<bar>of_int (round_half_even y) - y\<bar> \<le> 1 / 2"
proof -
  define f where "f = \<lfloor>y\<rfloor>"
  have b: "of_int f \<le> y" "y < of_int f + 1" unfolding f_def by linarith+
  have r: "round_half_even y = f \<and> y - of_int f \<le> 1 / 2 \<or>
           round_half_even y = f + 1 \<and> 1 / 2 \<le> y - of_int f"
    unfolding round_half_even_def Let_def f_def[symmetric] by auto
  then show ?thesis
  proof
    assume "round_half_even y = f \<and> y - of_int f \<le> 1 / 2"
    then show ?thesis using b by simp
  next
    assume "round_half_even y = f + 1 \<and> 1 / 2 \<le> y - of_int f"
    then show ?thesis using b by simp
  qed
qed

lemma nearest_double_close:
  assumes "x \<noteq> 0"
  shows "\<bar>nearest_double x - x\<bar> \<le> 2 powr of_int (max \<lfloor>log 2 \<bar>x\<bar>\<rfloor> (- 1022) - 52) / 2"
proof -
  define u :: real where "u = 2 powr of_int (max \<lfloor>log 2 \<bar>x\<bar>\<rfloor> (- 1022) - 52)"
  have u: "0 < u" by (simp add: u_def)
  have n: "nearest_double x = of_int (round_half_even (x / u)) * u"
    using assms by (simp add: nearest_double_def u_def Let_def)
  have "nearest_double x - x = (of_int (round_half_even (x / u)) - x / u) * u"
    unfolding n using u by (simp add: algebra_simps)
  then have "\<bar>nearest_double x - x\<bar> = \<bar>of_int (round_half_even (x / u)) - x / u\<bar> * u"
    using u by (simp add: abs_mult)
  also have "\<dots> \<le> (1 / 2) * u"
    using round_half_even_close[of "x / u"] u by (intro mult_right_mono) simp_all
  finally show ?thesis by (simp add: u_def)
qed

lemma fl_accuracy:
  assumes lo: "2 powr (- 1022) \<le> \<bar>x\<bar>" and hi: "\<bar>x\<bar> < 2 ^ 1024 - 2 ^ 970"
  shows "\<exists>y. fl x = Finite y \<and> \<bar>y - x\<bar> \<le> \<bar>x\<bar> / 2 ^ 53"
proof -
  have pos: "0 < \<bar>x\<bar>" using lo powr_gt_zero[of 2 "- 1022"] by linarith
  then have nz: "x \<noteq> 0" by simp
  have "log 2 (2 powr (- 1022)) \<le> log 2 \<bar>x\<bar>" using lo pos by (subst log_le_cancel_iff) simp_all
  then have "(- 1022 :: real) \<le> log 2 \<bar>x\<bar>" by simp
  then have "(- 1022 :: int) \<le> \<lfloor>log 2 \<bar>x\<bar>\<rfloor>" by (simp add: le_floor_iff)
  then have m: "max \<lfloor>log 2 \<bar>x\<bar>\<rfloor> (- 1022) - 52 = \<lfloor>log 2 \<bar>x\<bar>\<rfloor> - 52" by simp
  have "(2::real) powr of_int \<lfloor>log 2 \<bar>x\<bar>\<rfloor> \<le> 2 powr log 2 \<bar>x\<bar>"
    by (intro powr_mono) simp_all
  then have p: "(2::real) powr of_int \<lfloor>log 2 \<bar>x\<bar>\<rfloor> \<le> \<bar>x\<bar>" using pos by simp
  have "(2::real) powr of_int (\<lfloor>log 2 \<bar>x\<bar>\<rfloor> - 52) = 2 powr of_int \<lfloor>log 2 \<bar>x\<bar>\<rfloor> / 2 powr 52"
    by (simp add: powr_diff)
  also have "\<dots> = 2 powr of_int \<lfloor>log 2 \<bar>x\<bar>\<rfloor> / 2 ^ 52" by simp
  also have "\<dots> \<le> \<bar>x\<bar> / 2 ^ 52" using p by (intro divide_right_mono) simp_all
  finally have "(2::real) powr of_int (\<lfloor>log 2 \<bar>x\<bar>\<rfloor> - 52) / 2 \<le> \<bar>x\<bar> / 2 ^ 52 / 2" by simp
  then have "\<bar>nearest_double x - x\<bar> \<le> \<bar>x\<bar> / 2 ^ 52 / 2"
    using nearest_double_close[OF nz] unfolding m by linarith
  then have "\<bar>nearest_double x - x\<bar> \<le> \<bar>x\<bar> / 2 ^ 53" by simp
  moreover have "fl x = Finite (nearest_double x)" using hi by (simp add: fl_def)
  ultimately show ?thesis by blast
qed





subsection \<open>Runs of the constructors\<close>

theorem accessors_in_bounds_witness:
  "Graph_VF V3 [(0, 1, 2)] = Inr G3 \<and>
   {0 ..< NumVertices G3} \<subseteq> fst ` set (all_tri_edges [(0, 1, 2)]) \<and>
   (\<exists>d. NumAdjacents G3 1 = Inr d \<and> 0 \<le> d \<and> (\<exists>e. GetAdjacent G3 1 (d - 1) = Inr e))"
proof -
  have c: "\<forall>i. 0 \<le> i \<and> i < NumVertices G3 \<longrightarrow> i \<in> fst ` set (all_tri_edges [(0, 1, 2)])"
    by (auto simp: NumVertices_def G3_def V3_def all_tri_edges_def)
  have n: "(0::int) \<le> 1 \<and> 1 < NumVertices G3" by (simp add: NumVertices_def G3_def V3_def)
  have d: "NumAdjacents G3 1 = Inr 2" by (simp add: NumAdjacents_def G3_def vec_at_def)
  from accessors_in_bounds[OF Graph_VF_V3 c] n
  obtain d' where "NumAdjacents G3 1 = Inr d'" "0 \<le> d'"
    "\<forall>j. 0 \<le> j \<and> j < d' \<longrightarrow> (\<exists>e. GetAdjacent G3 1 j = Inr e)"
    by blast
  with d have "\<exists>d. NumAdjacents G3 1 = Inr d \<and> 0 \<le> d \<and> (\<exists>e. GetAdjacent G3 1 (d - 1) = Inr e)"
    by auto
  with Graph_VF_V3 c show ?thesis by auto
qed

theorem construction_in_bounds_witness:
  "V3 \<noteq> [] \<and> tri_in_range (length V3) (0, 1, 2) \<and> edge_in_range (length V3) (0, 1) \<and>
   edge_in_range (length V3) (1, 2) \<and>
   (\<exists>G. Graph_VF V3 [(0, 1, 2)] = Inr G) \<and> (\<exists>G. Graph_VE V3 [(0, 1)] = Inr G) \<and>
   (\<exists>G. Graph_VS V3 {|(1, 2)|} = Inr G) \<and>
   Graph_VF [] [(0, 1, 2)] = Inl OutOfBounds \<and> Graph_VE [] [(0, 1)] = Inl OutOfBounds \<and>
   Graph_VS [] {|(1, 2)|} = Inl OutOfBounds"
proof -
  have 1: "V3 \<noteq> []" by (simp add: V3_def)
  have 2: "tri_in_range (length V3) (0, 1, 2)"
    by (simp add: tri_in_range_def in_range_def V3_def)
  have 3: "edge_in_range (length V3) (0, 1)" "edge_in_range (length V3) (1, 2)"
    by (simp_all add: edge_in_range_def in_range_def V3_def)
  have "\<forall>t\<in>set [(0, 1, 2)]. tri_in_range (length V3) t"
    "\<forall>e\<in>set [(0, 1)]. edge_in_range (length V3) e"
    "\<forall>e\<in>fset {|(1, 2)|}. edge_in_range (length V3) e"
    using 2 3 by simp_all
  from construction_in_bounds[OF 1 this] 1 2 3 show ?thesis by blast
qed

lemma sorted_edges_023:
  "remdups_adj (sort (all_tri_edges [(0, 2, 3)])) = [(0, 2), (0, 3), (2, 0), (2, 3), (3, 0), (3, 2)]"
  by (simp add: all_tri_edges_def)

text \<open>
  Claim C1 says that the triangle-list constructor gives a well-formed CSR on every valid mesh.
  The streaming loop advances \<open>CurNode\<close> by one per edge at most and writes only
  \<open>m_Idxs[CurNode + 1]\<close> at the end, so a vertex that no triangle uses breaks it. With four
  points and the triangle \<open>(0, 2, 3)\<close>: vertex 1 gets the neighbour 0 although \<open>{0, 1}\<close> is not
  an edge, and vertex 2 has the single neighbour 3 although \<open>{0, 2}\<close> is an edge. With four
  points and the triangle \<open>(0, 1, 2)\<close>: \<open>off[4] = 0\<close> while \<open>|adj| = 6\<close>, the offsets decrease
  and \<open>NumAdjacents(3) = -6\<close>.
\<close>

theorem isolated_vertex_corrupts_csr:
  "Graph_VF V4 [(0, 2, 3)] = Inr G4_gap \<and>
   (1, 0) \<notin> set (all_tri_edges [(0, 2, 3)]) \<and> GetAdjacent G4_gap 1 0 = Inr (0, diff_norm (V4 ! 1) (V4 ! 0)) \<and>
   (2, 0) \<in> set (all_tri_edges [(0, 2, 3)]) \<and> NumAdjacents G4_gap 2 = Inr 1 \<and>
   GetAdjacent G4_gap 2 0 = Inr (3, diff_norm (V4 ! 2) (V4 ! 3)) \<and>
   Graph_VF V4 [(0, 1, 2)] = Inr G4_tail \<and> NumVertices G4_tail = 4 \<and>
   vec_at (m_Idxs G4_tail) 4 = Inr 0 \<and> length (m_Adjs G4_tail) = 6 \<and>
   NumAdjacents G4_tail 3 = Inr (- 6)"
proof -
  have 1: "Graph_VF V4 [(0, 2, 3)] = Inr G4_gap"
    unfolding Graph_VF_def sorted_edges_023
    by (simp add: populate_def V4_def G4_gap_def vec_at_def vec_put_def stream_body_def advance_def)
  have 2: "Graph_VF V4 [(0, 1, 2)] = Inr G4_tail"
    unfolding Graph_VF_def sorted_edges_012
    by (simp add: populate_def V4_def G4_tail_def vec_at_def vec_put_def stream_body_def advance_def)
  have 3: "(1, 0) \<notin> set (all_tri_edges [(0, 2, 3)])" "(2, 0) \<in> set (all_tri_edges [(0, 2, 3)])"
    by (simp_all add: all_tri_edges_def)
  have 4: "GetAdjacent G4_gap 1 0 = Inr (0, diff_norm (V4 ! 1) (V4 ! 0))" "NumAdjacents G4_gap 2 = Inr 1"
    "GetAdjacent G4_gap 2 0 = Inr (3, diff_norm (V4 ! 2) (V4 ! 3))"
    by (simp_all add: GetAdjacent_def NumAdjacents_def G4_gap_def vec_at_def)
  have 5: "NumVertices G4_tail = 4" "vec_at (m_Idxs G4_tail) 4 = Inr 0" "length (m_Adjs G4_tail) = 6"
    "NumAdjacents G4_tail 3 = Inr (- 6)"
    by (simp_all add: NumVertices_def NumAdjacents_def G4_tail_def V4_def vec_at_def)
  from 1 2 3 4 5 show ?thesis by simp
qed

section \<open>Properties of ConnectedComponents\<close>

lemma verts_iff: "u \<in> verts G \<longleftrightarrow> 0 \<le> u \<and> u < int (length (m_Verts G))"
  by (auto simp: verts_def NumVertices_def)

lemma wf_offsets:
  assumes wf: "wf_csr G" and i: "i \<le> j" "j \<le> length (m_Verts G)"
  shows "m_Idxs G ! i \<le> m_Idxs G ! j"
  using i
proof (induction j)
  case 0
  then show ?case by simp
next
  case (Suc j)
  show ?case
  proof (cases "i = Suc j")
    case True
    then show ?thesis by simp
  next
    case False
    with Suc.prems have "i \<le> j" "j < length (m_Verts G)" by simp_all
    with Suc.IH wf have "m_Idxs G ! i \<le> m_Idxs G ! j" "m_Idxs G ! j \<le> m_Idxs G ! (j + 1)"
      by (simp_all add: wf_csr_def)
    then show ?thesis by simp
  qed
qed

lemma wf_accessors:
  assumes wf: "wf_csr G" and N: "N \<in> verts G"
  shows "NumAdjacents G N = Inr (m_Idxs G ! (nat N + 1) - m_Idxs G ! nat N)"
    and "0 \<le> m_Idxs G ! nat N"
    and "m_Idxs G ! nat N \<le> m_Idxs G ! (nat N + 1)"
    and "m_Idxs G ! (nat N + 1) \<le> int (length (m_Adjs G))"
    and "\<And>j. 0 \<le> j \<Longrightarrow> j < m_Idxs G ! (nat N + 1) - m_Idxs G ! nat N \<Longrightarrow>
           GetAdjacent G N j = Inr (m_Adjs G ! nat (m_Idxs G ! nat N + j)) \<and>
           nat (m_Idxs G ! nat N + j) < length (m_Adjs G)"
proof -
  have n: "0 \<le> N" "nat N < length (m_Verts G)" using N by (auto simp: verts_iff)
  have len: "length (m_Idxs G) = length (m_Verts G) + 1" using wf by (simp add: wf_csr_def)
  show d: "NumAdjacents G N = Inr (m_Idxs G ! (nat N + 1) - m_Idxs G ! nat N)"
    using n len by (simp add: NumAdjacents_def vec_at_def nat_add_distrib)
  have "m_Idxs G ! 0 \<le> m_Idxs G ! nat N" by (rule wf_offsets[OF wf]) (use n in simp_all)
  then show lo: "0 \<le> m_Idxs G ! nat N" using wf by (simp add: wf_csr_def)
  show "m_Idxs G ! nat N \<le> m_Idxs G ! (nat N + 1)" using wf n by (simp add: wf_csr_def)
  have "m_Idxs G ! (nat N + 1) \<le> m_Idxs G ! length (m_Verts G)"
    by (rule wf_offsets[OF wf]) (use n in simp_all)
  then show hi: "m_Idxs G ! (nat N + 1) \<le> int (length (m_Adjs G))" using wf by (simp add: wf_csr_def)
  fix j :: int assume j: "0 \<le> j" "j < m_Idxs G ! (nat N + 1) - m_Idxs G ! nat N"
  have "0 \<le> m_Idxs G ! nat N + j" "m_Idxs G ! nat N + j < int (length (m_Adjs G))"
    using j lo hi by linarith+
  moreover have "N < int (length (m_Idxs G))" using n len by linarith
  ultimately show "GetAdjacent G N j = Inr (m_Adjs G ! nat (m_Idxs G ! nat N + j)) \<and>
           nat (m_Idxs G ! nat N + j) < length (m_Adjs G)"
    using n(1) by (auto simp: GetAdjacent_def vec_at_def)
qed

lemma adjacent_in_verts:
  assumes wf: "wf_csr G" and a: "adjacent G u v"
  shows "u \<in> verts G" and "v \<in> verts G"
proof -
  from a obtain d j e where d: "NumAdjacents G u = Inr d" and j: "0 \<le> j" "j < d"
    and e: "GetAdjacent G u j = Inr e" "fst e = v"
    unfolding adjacent_def by blast
  have len: "length (m_Idxs G) = length (m_Verts G) + 1" using wf by (simp add: wf_csr_def)
  from d len show u: "u \<in> verts G"
    by (auto simp: NumAdjacents_def vec_at_def verts_iff split: sum.splits if_splits)
  from wf_accessors(1)[OF wf u] d have "d = m_Idxs G ! (nat u + 1) - m_Idxs G ! nat u" by simp
  with wf_accessors(5)[OF wf u j(1)] j(2) e have "e \<in> set (m_Adjs G)" by auto
  with wf e(2) show "v \<in> verts G" by (auto simp: wf_csr_def)
qed

lemma push_adjacents_map:
  assumes "\<forall>jj\<in>set js. GetAdjacent G N jj = Inr (f jj)"
  shows "push_adjacents G N js Qu = Inr (Qu @ map (\<lambda>jj. fst (f jj)) js)"
  using assms by (induction js arbitrary: Qu) simp_all

lemma wf_push_adjacents:
  assumes wf: "wf_csr G" and N: "N \<in> verts G" and d: "NumAdjacents G N = Inr d"
  shows "push_adjacents G N [0 .. d - 1] Qu = Inr (Qu @ nbr_list G N)"
proof -
  have d': "d = m_Idxs G ! (nat N + 1) - m_Idxs G ! nat N"
    using wf_accessors(1)[OF wf N] d by simp
  have "\<forall>jj\<in>set [0 .. d - 1]. GetAdjacent G N jj = Inr (m_Adjs G ! nat (m_Idxs G ! nat N + jj))"
    using wf_accessors(5)[OF wf N] d' by simp
  from push_adjacents_map[OF this] show ?thesis by (simp add: nbr_list_def d')
qed

lemma set_nbr_list:
  assumes wf: "wf_csr G" and N: "N \<in> verts G"
  shows "set (nbr_list G N) = {v. adjacent G N v}"
proof -
  let ?d = "m_Idxs G ! (nat N + 1) - m_Idxs G ! nat N"
  have d: "NumAdjacents G N = Inr ?d" by (rule wf_accessors(1)[OF wf N])
  have get: "\<And>j. 0 \<le> j \<Longrightarrow> j < ?d \<Longrightarrow> GetAdjacent G N j = Inr (m_Adjs G ! nat (m_Idxs G ! nat N + j))"
    using wf_accessors(5)[OF wf N] by blast
  show ?thesis
  proof (intro set_eqI iffI)
    fix v assume "v \<in> set (nbr_list G N)"
    then obtain j where j: "0 \<le> j" "j < ?d" and v: "v = fst (m_Adjs G ! nat (m_Idxs G ! nat N + j))"
      by (auto simp: nbr_list_def)
    with d get[OF j] show "v \<in> {v. adjacent G N v}" unfolding adjacent_def by blast
  next
    fix v assume "v \<in> {v. adjacent G N v}"
    then obtain d' j e where "NumAdjacents G N = Inr d'" "0 \<le> j" "j < d'"
      "GetAdjacent G N j = Inr e" "fst e = v"
      unfolding adjacent_def by blast
    with d get[of j] have "0 \<le> j" "j < ?d" "v = fst (m_Adjs G ! nat (m_Idxs G ! nat N + j))" by auto
    then show "v \<in> set (nbr_list G N)" by (auto simp: nbr_list_def)
  qed
qed

lemma sum_list_01:
  fixes xs :: "int list"
  assumes "set xs \<subseteq> {0, 1}"
  shows "0 \<le> sum_list xs \<and> sum_list xs \<le> int (length xs) \<and>
         (sum_list xs < int (length xs) \<longleftrightarrow> 0 \<in> set xs)"
  using assms by (induction xs) auto

lemma sum_list_set_one:
  fixes xs :: "int list"
  assumes "i < length xs" "xs ! i = 0"
  shows "sum_list (xs[i := 1]) = sum_list xs + 1"
  using assms
proof (induction xs arbitrary: i)
  case Nil
  then show ?case by simp
next
  case (Cons x xs)
  then show ?case by (cases i) auto
qed

lemma find_root_least:
  assumes "0 \<in> set vs"
  shows "\<exists>k < length vs. find_root vs i = i + int k \<and> vs ! k = 0 \<and> (\<forall>k' < k. vs ! k' \<noteq> 0)"
  using assms
proof (induction vs arbitrary: i)
  case Nil
  then show ?case by simp
next
  case (Cons v vs)
  show ?case
  proof (cases "v = 0")
    case True
    then show ?thesis by (intro exI[of _ 0]) simp
  next
    case False
    with Cons.prems have "0 \<in> set vs" by simp
    from Cons.IH[OF this, of "i + 1"] obtain k where k: "k < length vs"
      "find_root vs (i + 1) = i + 1 + int k" "vs ! k = 0" "\<forall>k' < k. vs ! k' \<noteq> 0"
      by blast
    have "\<forall>k' < Suc k. (v # vs) ! k' \<noteq> 0"
      using k(4) False by (auto simp: nth_Cons')
    with k False show ?thesis by (intro exI[of _ "Suc k"]) simp
  qed
qed

lemma reachable_step: "reachable G a b \<Longrightarrow> adjacent G b c \<Longrightarrow> reachable G a c"
  by (simp add: reachable_def)

lemma reachable_refl: "reachable G a a"
  by (simp add: reachable_def)

lemma nth_update_verts:
  assumes "u \<in> verts G" "N \<in> verts G"
  shows "xs[nat N := a] ! nat u = (if u = N then (xs[nat N := a]) ! nat N else xs ! nat u)"
  using assms by (auto simp: verts_iff)

lemma bfs_body_step:
  assumes wf: "wf_csr G" and inv: "bfs_inv G Root c CC0 Vis0 s" and ne: "Q s \<noteq> []"
  shows "\<exists>s'. bfs_body G c s = Inr s' \<and> bfs_inv G Root c CC0 Vis0 s' \<and>
           (bfs_measure s', bfs_measure s) \<in> less_than <*lex*> less_than"
proof -
  define N where "N = hd (Q s)"
  define Q' where "Q' = tl (Q s)"
  have Qs: "Q s = N # Q'" using ne by (simp add: N_def Q'_def)
  have lenC: "length (CC s) = length (m_Verts G)" and lenV: "length (Visited s) = length (m_Verts G)"
    and bits: "set (Visited s) \<subseteq> {0, 1}"
    and old: "\<And>u. u \<in> verts G \<Longrightarrow> vis Vis0 u \<Longrightarrow> vis (Visited s) u \<and> CC s ! nat u = CC0 ! nat u"
    and new: "\<And>u. u \<in> verts G \<Longrightarrow> vis (Visited s) u \<Longrightarrow> \<not> vis Vis0 u \<Longrightarrow>
        reachable G Root u \<and> CC s ! nat u = c \<and>
        (\<forall>v. adjacent G u v \<longrightarrow> vis (Visited s) v \<or> v \<in> set (Q s))"
    and queue: "\<And>v. v \<in> set (Q s) \<Longrightarrow> v \<in> verts G \<and> reachable G Root v"
    and root: "vis (Visited s) Root \<or> Root \<in> set (Q s)"
    using inv unfolding bfs_inv_def by blast+
  have N: "N \<in> verts G" "reachable G Root N" using queue[of N] Qs by simp_all
  have Nn: "0 \<le> N" "nat N < length (m_Verts G)" "N < int (length (m_Verts G))"
    using N(1) by (auto simp: verts_iff)
  have at: "vec_at (Visited s) N = Inr (Visited s ! nat N)"
    using Nn lenV by (simp add: vec_at_def)
  show ?thesis
  proof (cases "vis (Visited s) N")
    case True
    let ?s' = "s\<lparr>Q := Q'\<rparr>"
    have body: "bfs_body G c s = Inr ?s'"
      using True at by (simp add: bfs_body_def Let_def vis_def N_def[symmetric] Q'_def[symmetric])
    have inv': "bfs_inv G Root c CC0 Vis0 ?s'"
      unfolding bfs_inv_def
    proof (intro conjI ballI impI allI)
      fix u v assume u: "u \<in> verts G" "vis (Visited ?s') u \<and> \<not> vis Vis0 u" and a: "adjacent G u v"
      from new[of u] u a have "vis (Visited s) v \<or> v \<in> set (Q s)" by simp
      then show "vis (Visited ?s') v \<or> v \<in> set (Q ?s')" using True Qs by auto
    next
      show "vis (Visited ?s') Root \<or> Root \<in> set (Q ?s')" using root True Qs by auto
    qed (use lenC lenV bits old new queue Qs in \<open>simp_all\<close>)
    have "(bfs_measure ?s', bfs_measure s) \<in> less_than <*lex*> less_than"
      by (simp add: bfs_measure_def Qs)
    with body inv' show ?thesis by blast
  next
    case False
    then have zero: "Visited s ! nat N = 0" by (simp add: vis_def)
    define CC' where "CC' = (CC s)[nat N := c]"
    define Vs' where "Vs' = (Visited s)[nat N := 1]"
    obtain d where d: "NumAdjacents G N = Inr d" using wf_accessors(1)[OF wf N(1)] by blast
    define s' where "s' = \<lparr>CC = CC', Visited = Vs', Q = Q' @ nbr_list G N\<rparr>"
    have body: "bfs_body G c s = Inr s'"
      using zero at d wf_push_adjacents[OF wf N(1) d, of Q'] Nn lenC lenV
      by (simp add: bfs_body_def Let_def N_def[symmetric] Q'_def[symmetric] vec_put_def
          s'_def CC'_def Vs'_def)
    have visN: "vis Vs' N" using Nn lenV by (simp add: vis_def Vs'_def)
    have vis': "vis Vs' u \<longleftrightarrow> u = N \<or> vis (Visited s) u" if "u \<in> verts G" for u
      using that N(1) Nn lenV by (auto simp: vis_def Vs'_def verts_iff nth_list_update)
    have vis_mono: "vis (Visited s) u \<Longrightarrow> vis Vs' u" for u
      using zero by (cases "nat u = nat N") (auto simp: vis_def Vs'_def)
    have CCN: "CC' ! nat N = c" using Nn lenC by (simp add: CC'_def)
    have CCu: "CC' ! nat u = CC s ! nat u" if "u \<in> verts G" "u \<noteq> N" for u
      using that N(1) by (auto simp: CC'_def verts_iff)
    have nb: "set (nbr_list G N) = {v. adjacent G N v}" by (rule set_nbr_list[OF wf N(1)])
    have inv': "bfs_inv G Root c CC0 Vis0 s'"
      unfolding bfs_inv_def
    proof (intro conjI ballI impI allI)
      show "length (CC s') = length (m_Verts G)" using lenC by (simp add: s'_def CC'_def)
      show "length (Visited s') = length (m_Verts G)" using lenV by (simp add: s'_def Vs'_def)
      show "set (Visited s') \<subseteq> {0, 1}"
        using bits set_update_subset_insert[of "Visited s" "nat N" 1]
        by (auto simp: s'_def Vs'_def)
    next
      fix u assume u: "u \<in> verts G" "vis Vis0 u"
      from old[OF u] False have "u \<noteq> N" by auto
      with old[OF u] vis_mono[of u] CCu[OF u(1)]
      show "vis (Visited s') u" "CC s' ! nat u = CC0 ! nat u" by (simp_all add: s'_def)
    next
      fix u assume u: "u \<in> verts G" "vis (Visited s') u \<and> \<not> vis Vis0 u"
      show "reachable G Root u"
      proof (cases "u = N")
        case True then show ?thesis using N(2) by simp
      next
        case False
        with u vis'[OF u(1)] have "vis (Visited s) u" by (simp add: s'_def)
        with new[OF u(1)] u show ?thesis by simp
      qed
      show "CC s' ! nat u = c"
      proof (cases "u = N")
        case True then show ?thesis using CCN by (simp add: s'_def)
      next
        case False
        with u vis'[OF u(1)] have "vis (Visited s) u" by (simp add: s'_def)
        with new[OF u(1)] u CCu[OF u(1) False] show ?thesis by (simp add: s'_def)
      qed
      fix v assume a: "adjacent G u v"
      show "vis (Visited s') v \<or> v \<in> set (Q s')"
      proof (cases "u = N")
        case True
        with a nb show ?thesis by (simp add: s'_def)
      next
        case False
        with u vis'[OF u(1)] have "vis (Visited s) u" by (simp add: s'_def)
        with new[OF u(1)] u a have "vis (Visited s) v \<or> v \<in> set (Q s)" by simp
        then show ?thesis using vis_mono[of v] visN Qs by (auto simp: s'_def)
      qed
    next
      fix v assume "v \<in> set (Q s')"
      then consider "v \<in> set Q'" | "adjacent G N v" using nb by (auto simp: s'_def)
      then have "v \<in> verts G \<and> reachable G Root v"
      proof cases
        case 1
        then show ?thesis using queue[of v] Qs by simp
      next
        case 2
        have "reachable G Root v" using N(2) 2 by (rule reachable_step)
        with adjacent_in_verts(2)[OF wf 2] show ?thesis by simp
      qed
      then show "v \<in> verts G" "reachable G Root v" by simp_all
    next
      show "vis (Visited s') Root \<or> Root \<in> set (Q s')"
        using root vis_mono[of Root] visN Qs by (auto simp: s'_def)
    qed
    have "0 \<in> set (Visited s)" using zero Nn lenV by (metis nth_mem)
    then have lt: "sum_list (Visited s) < int (length (Visited s))" using sum_list_01[OF bits] by simp
    have "sum_list Vs' = sum_list (Visited s) + 1"
      unfolding Vs'_def using Nn lenV zero by (intro sum_list_set_one) simp_all
    with lt have "(bfs_measure s', bfs_measure s) \<in> less_than <*lex*> less_than"
      by (simp add: bfs_measure_def s'_def Vs'_def)
    with body inv' show ?thesis by blast
  qed
qed

lemma bfs_loop_total:
  assumes wf: "wf_csr G"
  shows "bfs_inv G Root c CC0 Vis0 s \<Longrightarrow>
         \<exists>s'. bfs_loop G c s = Some (Inr s') \<and> bfs_inv G Root c CC0 Vis0 s' \<and> Q s' = []"
proof (induction s rule: wf_induct_rule[OF wf_inv_image[OF wf_lex_prod[OF wf_less_than wf_less_than]], of bfs_measure])
  case (1 s)
  show ?case
  proof (cases "Q s = []")
    case True
    with 1(2) show ?thesis by (subst bfs_loop.simps) simp
  next
    case False
    from bfs_body_step[OF wf 1(2) False] obtain s1 where
      s1: "bfs_body G c s = Inr s1" "bfs_inv G Root c CC0 Vis0 s1"
      "(bfs_measure s1, bfs_measure s) \<in> less_than <*lex*> less_than"
      by blast
    from 1(1)[of s1] s1 obtain s' where
      "bfs_loop G c s1 = Some (Inr s')" "bfs_inv G Root c CC0 Vis0 s'" "Q s' = []"
      by (auto simp: inv_image_def)
    with s1(1) False show ?thesis by (subst bfs_loop.simps) simp
  qed
qed

lemma reachable_trans: "reachable G a b \<Longrightarrow> reachable G b c \<Longrightarrow> reachable G a c"
  by (simp add: reachable_def)

lemma reachable_sym:
  assumes wf: "wf_csr G" and r: "reachable G a b"
  shows "reachable G b a"
  using r unfolding reachable_def
proof (induction rule: rtranclp_induct)
  case base
  show ?case by simp
next
  case (step y z)
  from step.hyps(2) wf have "adjacent G z y" by (simp add: wf_csr_def)
  then have "(adjacent G)\<^sup>*\<^sup>* z y" by simp
  then show ?case using step.IH by (rule rtranclp_trans)
qed

lemma reachable_in_verts:
  assumes wf: "wf_csr G" and a: "a \<in> verts G" and r: "reachable G a b"
  shows "b \<in> verts G"
  using r a unfolding reachable_def
  by (induction rule: rtranclp_induct) (auto dest: adjacent_in_verts(2)[OF wf])

lemma closed_reachable:
  assumes closed: "\<And>u v. P u \<Longrightarrow> adjacent G u v \<Longrightarrow> P v"
    and r: "reachable G a b" and a: "P a"
  shows "P b"
  using r a unfolding reachable_def
  by (induction rule: rtranclp_induct) (auto intro: closed)

lemma finite_verts: "finite (verts G)"
  by (simp add: verts_def)

lemma component_props:
  assumes u: "u \<in> verts G"
  shows "finite (component G u)" "u \<in> component G u" "component G u \<subseteq> verts G"
  using u by (auto simp: component_def reachable_refl finite_verts)

lemma component_eq_iff:
  assumes wf: "wf_csr G" and u: "u \<in> verts G" and v: "v \<in> verts G"
  shows "component G u = component G v \<longleftrightarrow> reachable G u v"
proof
  assume "component G u = component G v"
  with component_props(2)[OF v] have "v \<in> component G u" by simp
  then show "reachable G u v" by (simp add: component_def)
next
  assume r: "reachable G u v"
  have r': "reachable G v u" by (rule reachable_sym[OF wf r])
  show "component G u = component G v"
    unfolding component_def using r r' by (auto intro: reachable_trans)
qed

lemma comp_root_props:
  assumes u: "u \<in> verts G"
  shows "comp_root G u \<in> component G u" "\<And>w. w \<in> component G u \<Longrightarrow> comp_root G u \<le> w"
  unfolding comp_root_def
  using component_props[OF u] by (auto intro: Min_in)

lemma comp_root_eq:
  assumes wf: "wf_csr G" and u: "u \<in> verts G" and v: "v \<in> verts G" and r: "reachable G u v"
  shows "comp_root G u = comp_root G v"
  using component_eq_iff[OF wf u v] r by (simp add: comp_root_def)

lemma card_image_same_kernel:
  assumes "finite A" and "\<And>x y. x \<in> A \<Longrightarrow> y \<in> A \<Longrightarrow> (f x = f y \<longleftrightarrow> g x = g y)"
  shows "card (f ` A) = card (g ` A)"
  using assms
proof (induction A rule: finite_induct)
  case empty
  show ?case by simp
next
  case (insert a A)
  have IH: "card (f ` A) = card (g ` A)" using insert.IH insert.prems by simp
  have iff: "f a \<in> f ` A \<longleftrightarrow> g a \<in> g ` A"
  proof
    assume "f a \<in> f ` A"
    then obtain y where "y \<in> A" "f a = f y" by auto
    with insert.prems[of a y] show "g a \<in> g ` A" by auto
  next
    assume "g a \<in> g ` A"
    then obtain y where "y \<in> A" "g a = g y" by auto
    with insert.prems[of a y] show "f a \<in> f ` A" by auto
  qed
  show ?case
  proof (cases "f a \<in> f ` A")
    case True
    with iff IH show ?thesis by (simp add: insert_absorb)
  next
    case False
    with iff IH insert.hyps(1) show ?thesis by simp
  qed
qed

lemma zero_in_set_unvisited:
  assumes "length Vs = length (m_Verts G)"
  shows "0 \<in> set Vs \<longleftrightarrow> unvisited G Vs \<noteq> {}"
proof
  assume "0 \<in> set Vs"
  then obtain k where k: "k < length Vs" "Vs ! k = 0" by (auto simp: in_set_conv_nth)
  then have "int k \<in> unvisited G Vs" using assms by (simp add: unvisited_def verts_iff vis_def)
  then show "unvisited G Vs \<noteq> {}" by blast
next
  assume "unvisited G Vs \<noteq> {}"
  then obtain u where "u \<in> verts G" "Vs ! nat u = 0" by (auto simp: unvisited_def vis_def)
  then show "0 \<in> set Vs" using assms by (metis nth_mem verts_iff nat_less_iff)
qed

lemma cc_step:
  assumes wf: "wf_csr G" and inv: "cc_inv G L Vs c" and cond: "sum_list Vs < NumVertices G"
  shows "\<exists>s. bfs_loop G c \<lparr>CC = L, Visited = Vs, Q = [find_root Vs 0]\<rparr> = Some (Inr s) \<and>
             cc_inv G (CC s) (Visited s) (c + 1) \<and> unvisited G (Visited s) \<subset> unvisited G Vs \<and>
             find_root Vs 0 \<in> verts G \<and> \<not> vis Vs (find_root Vs 0) \<and>
             vis (Visited s) (find_root Vs 0)"
proof -
  note I1 = inv[unfolded cc_inv_def]
  note I2 = I1[THEN conjunct2] note I3 = I2[THEN conjunct2] note I4 = I3[THEN conjunct2]
  note I5 = I4[THEN conjunct2] note I6 = I5[THEN conjunct2] note I7 = I6[THEN conjunct2]
  note I8 = I7[THEN conjunct2] note I9 = I8[THEN conjunct2]
  note raw = I1[THEN conjunct1] I2[THEN conjunct1] I3[THEN conjunct1] I4[THEN conjunct1]
    I5[THEN conjunct1] I6[THEN conjunct1] I7[THEN conjunct1] I8[THEN conjunct1]
    I9[THEN conjunct1] I9[THEN conjunct2]
  note lenL = raw(1) and lenV = raw(2) and bits = raw(3) and c0 = raw(4)
  have closed: "\<And>u v. u \<in> verts G \<Longrightarrow> vis Vs u \<Longrightarrow> adjacent G u v \<Longrightarrow> vis Vs v"
    using raw(5) by blast
  have range: "\<And>u. u \<in> verts G \<Longrightarrow> vis Vs u \<Longrightarrow> 0 \<le> L ! nat u \<and> L ! nat u < c"
    using raw(6) by blast
  have eq: "\<And>u v. u \<in> verts G \<Longrightarrow> v \<in> verts G \<Longrightarrow> vis Vs u \<Longrightarrow> vis Vs v \<Longrightarrow>
        (L ! nat u = L ! nat v \<longleftrightarrow> reachable G u v)"
    using raw(7) by blast
  have ord: "\<And>u v. u \<in> verts G \<Longrightarrow> v \<in> verts G \<Longrightarrow> vis Vs u \<Longrightarrow> vis Vs v \<Longrightarrow>
        (L ! nat u < L ! nat v \<longleftrightarrow> comp_root G u < comp_root G v)"
    using raw(8) by blast
  have front: "\<And>u v. u \<in> verts G \<Longrightarrow> v \<in> verts G \<Longrightarrow> vis Vs u \<Longrightarrow> \<not> vis Vs v \<Longrightarrow> comp_root G u < v"
    using raw(9) by blast
  have cover: "\<And>l. 0 \<le> l \<Longrightarrow> l < c \<Longrightarrow> \<exists>u\<in>verts G. vis Vs u \<and> L ! nat u = l"
    using raw(10) by blast
  define Root where "Root = find_root Vs 0"
  have "0 \<in> set Vs" using sum_list_01[OF bits] cond lenV by (simp add: NumVertices_def)
  from find_root_least[OF this, of 0] obtain k where k: "k < length Vs" "Root = int k"
    "Vs ! k = 0" "\<forall>k' < k. Vs ! k' \<noteq> 0"
    unfolding Root_def by auto
  have Root: "Root \<in> verts G" "\<not> vis Vs Root"
    using k lenV by (simp_all add: verts_iff vis_def)
  have least: "vis Vs u" if "u \<in> verts G" "u < Root" for u
    using that k by (auto simp: vis_def verts_iff)
  have closed_r: "vis Vs v" if "u \<in> verts G" "vis Vs u" "reachable G u v" for u v
  proof -
    have "v \<in> verts G \<and> vis Vs v"
      by (rule closed_reachable[where P = "\<lambda>x. x \<in> verts G \<and> vis Vs x", OF _ that(3)])
        (use that closed adjacent_in_verts(2)[OF wf] in auto)
    then show ?thesis ..
  qed
  let ?s0 = "\<lparr>CC = L, Visited = Vs, Q = [Root]\<rparr>"
  have inv0: "bfs_inv G Root c L Vs ?s0"
    unfolding bfs_inv_def using lenL lenV bits Root by (simp add: reachable_refl)
  from bfs_loop_total[OF wf inv0] obtain s where
    loop: "bfs_loop G c ?s0 = Some (Inr s)" and invs: "bfs_inv G Root c L Vs s" and Qs: "Q s = []"
    by blast
  have lenC': "length (CC s) = length (m_Verts G)" and lenV': "length (Visited s) = length (m_Verts G)"
    and bits': "set (Visited s) \<subseteq> {0, 1}"
    and old: "\<And>u. u \<in> verts G \<Longrightarrow> vis Vs u \<Longrightarrow> vis (Visited s) u \<and> CC s ! nat u = L ! nat u"
    and new: "\<And>u. u \<in> verts G \<Longrightarrow> vis (Visited s) u \<Longrightarrow> \<not> vis Vs u \<Longrightarrow>
        reachable G Root u \<and> CC s ! nat u = c \<and> (\<forall>v. adjacent G u v \<longrightarrow> vis (Visited s) v)"
    and root: "vis (Visited s) Root"
    using invs Qs unfolding bfs_inv_def by auto
  have reach_new: "v \<in> verts G \<and> vis (Visited s) v \<and> \<not> vis Vs v" if "reachable G Root v" for v
  proof (rule closed_reachable[where P = "\<lambda>x. x \<in> verts G \<and> vis (Visited s) x \<and> \<not> vis Vs x", OF _ that])
    show "Root \<in> verts G \<and> vis (Visited s) Root \<and> \<not> vis Vs Root" using Root root by simp
  next
    fix u v assume u: "u \<in> verts G \<and> vis (Visited s) u \<and> \<not> vis Vs u" and a: "adjacent G u v"
    have v: "v \<in> verts G" by (rule adjacent_in_verts(2)[OF wf a])
    have "adjacent G v u" using wf a by (simp add: wf_csr_def)
    with closed[OF v] u have "\<not> vis Vs v" by blast
    with new[of u] u a v show "v \<in> verts G \<and> vis (Visited s) v \<and> \<not> vis Vs v" by blast
  qed
  have vis_iff: "vis (Visited s) v \<longleftrightarrow> vis Vs v \<or> reachable G Root v" if "v \<in> verts G" for v
    using old[OF that] new[OF that] reach_new[of v] by blast
  have new_root: "comp_root G u = Root" if u: "u \<in> verts G" "reachable G Root u" for u
  proof -
    have "comp_root G Root = Root"
    proof (rule antisym)
      show "comp_root G Root \<le> Root"
        using comp_root_props(2)[OF Root(1)] component_props(2)[OF Root(1)] by simp
      have m: "comp_root G Root \<in> component G Root" by (rule comp_root_props(1)[OF Root(1)])
      then have mv: "comp_root G Root \<in> verts G" "reachable G Root (comp_root G Root)"
        by (simp_all add: component_def)
      show "Root \<le> comp_root G Root"
      proof (rule ccontr)
        assume "\<not> Root \<le> comp_root G Root"
        then have "vis Vs (comp_root G Root)" using least[OF mv(1)] by simp
        from closed_r[OF mv(1) this reachable_sym[OF wf mv(2)]] Root(2) show False by simp
      qed
    qed
    with comp_root_eq[OF wf Root(1) u(1) u(2)] show ?thesis by simp
  qed
  have new_lab: "CC s ! nat u = c" if "u \<in> verts G" "reachable G Root u" for u
    using new[OF that(1)] reach_new[OF that(2)] by blast
  have old_lab: "CC s ! nat u = L ! nat u" if "u \<in> verts G" "vis Vs u" for u
    using old[OF that] by simp
  have old_not_reach: "\<not> reachable G Root u" if "u \<in> verts G" "vis Vs u" for u
    using reach_new[of u] that by blast
  have inv': "cc_inv G (CC s) (Visited s) (c + 1)"
    unfolding cc_inv_def
  proof (intro conjI ballI impI allI)
    show "length (CC s) = length (m_Verts G)" by (rule lenC')
    show "length (Visited s) = length (m_Verts G)" by (rule lenV')
    show "set (Visited s) \<subseteq> {0, 1}" by (rule bits')
    show "0 \<le> c + 1" using c0 by simp
  next
    fix u v assume u: "u \<in> verts G" "vis (Visited s) u" and a: "adjacent G u v"
    have v: "v \<in> verts G" by (rule adjacent_in_verts(2)[OF wf a])
    from u vis_iff[OF u(1)] consider "vis Vs u" | "reachable G Root u" by blast
    then show "vis (Visited s) v"
    proof cases
      case 1
      from closed[OF u(1) 1 a] show ?thesis using vis_iff[OF v] by simp
    next
      case 2
      from reachable_step[OF 2 a] show ?thesis using vis_iff[OF v] by simp
    qed
  next
    fix u assume u: "u \<in> verts G" "vis (Visited s) u"
    from u vis_iff[OF u(1)] consider "vis Vs u" | "reachable G Root u" by blast
    then have "0 \<le> CC s ! nat u \<and> CC s ! nat u < c + 1"
    proof cases
      case 1
      with range[OF u(1) 1] old_lab[OF u(1) 1] show ?thesis by simp
    next
      case 2
      with new_lab[OF u(1) 2] c0 show ?thesis by simp
    qed
    then show "0 \<le> CC s ! nat u" "CC s ! nat u < c + 1" by simp_all
  next
    fix u v assume u: "u \<in> verts G" and v: "v \<in> verts G" and b: "vis (Visited s) u \<and> vis (Visited s) v"
    from b vis_iff[OF u] vis_iff[OF v]
    consider "vis Vs u" "vis Vs v" | "vis Vs u" "reachable G Root v"
      | "reachable G Root u" "vis Vs v" | "reachable G Root u" "reachable G Root v" by blast
    then show "CC s ! nat u = CC s ! nat v \<longleftrightarrow> reachable G u v"
    proof cases
      case 1
      then show ?thesis using eq[OF u v] old_lab[OF u] old_lab[OF v] by simp
    next
      case 2
      have "\<not> reachable G u v" using closed_r[OF u 2(1)] old_not_reach[OF v] 2(2) by blast
      moreover have "CC s ! nat u < c" using range[OF u 2(1)] old_lab[OF u 2(1)] by simp
      ultimately show ?thesis using new_lab[OF v 2(2)] by simp
    next
      case 3
      have "\<not> reachable G u v"
        using closed_r[OF v 3(2) reachable_sym[OF wf]] old_not_reach[OF u] 3(1) by blast
      moreover have "CC s ! nat v < c" using range[OF v 3(2)] old_lab[OF v 3(2)] by simp
      ultimately show ?thesis using new_lab[OF u 3(1)] by simp
    next
      case 4
      have "reachable G u v" using reachable_trans[OF reachable_sym[OF wf 4(1)] 4(2)] .
      then show ?thesis using new_lab[OF u 4(1)] new_lab[OF v 4(2)] by simp
    qed
  next
    fix u v assume u: "u \<in> verts G" and v: "v \<in> verts G" and b: "vis (Visited s) u \<and> vis (Visited s) v"
    from b vis_iff[OF u] vis_iff[OF v]
    consider "vis Vs u" "vis Vs v" | "vis Vs u" "reachable G Root v"
      | "reachable G Root u" "vis Vs v" | "reachable G Root u" "reachable G Root v" by blast
    then show "CC s ! nat u < CC s ! nat v \<longleftrightarrow> comp_root G u < comp_root G v"
    proof cases
      case 1
      then show ?thesis using ord[OF u v] old_lab[OF u] old_lab[OF v] by simp
    next
      case 2
      have "comp_root G u < Root" using front[OF u Root(1) 2(1) Root(2)] .
      moreover have "CC s ! nat u < c" using range[OF u 2(1)] old_lab[OF u 2(1)] by simp
      ultimately show ?thesis using new_lab[OF v 2(2)] new_root[OF v 2(2)] by simp
    next
      case 3
      have "comp_root G v < Root" using front[OF v Root(1) 3(2) Root(2)] .
      moreover have "CC s ! nat v < c" using range[OF v 3(2)] old_lab[OF v 3(2)] by simp
      ultimately show ?thesis using new_lab[OF u 3(1)] new_root[OF u 3(1)] by simp
    next
      case 4
      then show ?thesis
        using new_lab[OF u 4(1)] new_lab[OF v 4(2)] new_root[OF u 4(1)] new_root[OF v 4(2)] by simp
    qed
  next
    fix u v assume u: "u \<in> verts G" and v: "v \<in> verts G" and b: "vis (Visited s) u \<and> \<not> vis (Visited s) v"
    have nv: "\<not> vis Vs v" "\<not> reachable G Root v" using b vis_iff[OF v] by simp_all
    from b vis_iff[OF u] consider "vis Vs u" | "reachable G Root u" by blast
    then show "comp_root G u < v"
    proof cases
      case 1
      then show ?thesis using front[OF u v 1 nv(1)] by simp
    next
      case 2
      have "Root \<le> v" using least[OF v] nv(1) by force
      moreover have "Root \<noteq> v" using nv(2) reachable_refl[of G Root] by auto
      ultimately show ?thesis using new_root[OF u 2] by simp
    qed
  next
    fix l assume l: "0 \<le> l \<and> l < c + 1"
    show "\<exists>u\<in>verts G. vis (Visited s) u \<and> CC s ! nat u = l"
    proof (cases "l = c")
      case True
      then show ?thesis using Root(1) root new_lab[OF Root(1) reachable_refl] by blast
    next
      case False
      with l cover[of l] obtain u where "u \<in> verts G" "vis Vs u" "L ! nat u = l" by auto
      then show ?thesis using old[of u] by auto
    qed
  qed
  have "unvisited G (Visited s) \<subseteq> unvisited G Vs"
    using old by (auto simp: unvisited_def)
  moreover have "Root \<in> unvisited G Vs" "Root \<notin> unvisited G (Visited s)"
    using Root root by (simp_all add: unvisited_def)
  ultimately have "unvisited G (Visited s) \<subset> unvisited G Vs" by blast
  with loop inv' Root root show ?thesis unfolding Root_def by blast
qed

lemma cc_loop_total:
  assumes wf: "wf_csr G"
  shows "cc_inv G L Vs c \<Longrightarrow>
         \<exists>L' Vs' c'. cc_loop G L Vs c = Some (Inr L') \<and> cc_inv G L' Vs' c' \<and> unvisited G Vs' = {}"
proof (induction "card (unvisited G Vs)" arbitrary: L Vs c rule: less_induct)
  case less
  have lenV: "length Vs = length (m_Verts G)" and bits: "set Vs \<subseteq> {0, 1}"
    using less.prems by (simp_all add: cc_inv_def)
  show ?case
  proof (cases "sum_list Vs < NumVertices G")
    case True
    from cc_step[OF wf less.prems True] obtain s where
      loop: "bfs_loop G c \<lparr>CC = L, Visited = Vs, Q = [find_root Vs 0]\<rparr> = Some (Inr s)"
      and inv': "cc_inv G (CC s) (Visited s) (c + 1)"
      and sub: "unvisited G (Visited s) \<subset> unvisited G Vs"
      by blast
    have "finite (unvisited G Vs)" by (simp add: unvisited_def finite_verts)
    with sub have "card (unvisited G (Visited s)) < card (unvisited G Vs)"
      by (rule psubset_card_mono[rotated])
    from less.hyps[OF this inv'] obtain L' Vs' c' where
      r: "cc_loop G (CC s) (Visited s) (c + 1) = Some (Inr L')" "cc_inv G L' Vs' c'"
      "unvisited G Vs' = {}"
      by blast
    have "cc_loop G L Vs c = cc_loop G (CC s) (Visited s) (c + 1)"
      by (subst cc_loop.simps) (simp add: True loop Let_def)
    with r show ?thesis by auto
  next
    case False
    then have "0 \<notin> set Vs" using sum_list_01[OF bits] lenV by (simp add: NumVertices_def)
    then have "unvisited G Vs = {}" using zero_in_set_unvisited[OF lenV] by simp
    moreover have "cc_loop G L Vs c = Some (Inr L)"
      by (subst cc_loop.simps) (simp add: False)
    ultimately show ?thesis using less.prems by blast
  qed
qed

lemma cc_inv_init:
  "cc_inv G (replicate (nat (NumVertices G)) 0) (replicate (nat (NumVertices G)) 0) 0"
proof -
  have "\<not> vis (replicate (nat (NumVertices G)) 0) u" if "u \<in> verts G" for u
    using that by (auto simp: vis_def verts_iff NumVertices_def)
  then show ?thesis
    unfolding cc_inv_def by (auto simp: NumVertices_def)
qed

lemma cc_inv_final:
  assumes wf: "wf_csr G" and inv: "cc_inv G L Vs c" and all: "unvisited G Vs = {}"
  shows "length L = nat (NumVertices G)"
    and "\<forall>u\<in>verts G. 0 \<le> L ! nat u \<and> L ! nat u < int (num_components G)"
    and "\<forall>u\<in>verts G. \<forall>v\<in>verts G. (L ! nat u = L ! nat v \<longleftrightarrow> reachable G u v)"
    and "\<forall>u\<in>verts G. \<forall>v\<in>verts G. (L ! nat u < L ! nat v \<longleftrightarrow> comp_root G u < comp_root G v)"
proof -
  note I1 = inv[unfolded cc_inv_def]
  note I2 = I1[THEN conjunct2] note I3 = I2[THEN conjunct2] note I4 = I3[THEN conjunct2]
  note I5 = I4[THEN conjunct2] note I6 = I5[THEN conjunct2] note I7 = I6[THEN conjunct2]
  note I8 = I7[THEN conjunct2] note I9 = I8[THEN conjunct2]
  have v: "vis Vs u" if "u \<in> verts G" for u using all that by (auto simp: unvisited_def)
  show "length L = nat (NumVertices G)" using I1[THEN conjunct1] by (simp add: NumVertices_def)
  have range: "0 \<le> L ! nat u \<and> L ! nat u < c" if "u \<in> verts G" for u
    using I6[THEN conjunct1] v that by blast
  have eq: "L ! nat u = L ! nat v \<longleftrightarrow> reachable G u v" if "u \<in> verts G" "v \<in> verts G" for u v
    using I7[THEN conjunct1] v that by blast
  show "\<forall>u\<in>verts G. \<forall>v\<in>verts G. (L ! nat u = L ! nat v \<longleftrightarrow> reachable G u v)"
    using eq by blast
  show "\<forall>u\<in>verts G. \<forall>v\<in>verts G. (L ! nat u < L ! nat v \<longleftrightarrow> comp_root G u < comp_root G v)"
    using I8[THEN conjunct1] v by blast
  have cover: "\<exists>u\<in>verts G. L ! nat u = l" if "0 \<le> l" "l < c" for l
    using I9[THEN conjunct2] that by blast
  have img: "(\<lambda>u. L ! nat u) ` verts G = {0 ..< c}"
  proof (intro set_eqI iffI)
    fix l assume "l \<in> (\<lambda>u. L ! nat u) ` verts G"
    then show "l \<in> {0 ..< c}" using range by auto
  next
    fix l assume "l \<in> {0 ..< c}"
    then show "l \<in> (\<lambda>u. L ! nat u) ` verts G" using cover[of l] by auto
  qed
  have "card ((\<lambda>u. L ! nat u) ` verts G) = card (component G ` verts G)"
    by (rule card_image_same_kernel[OF finite_verts]) (simp add: eq component_eq_iff[OF wf])
  then have "int (num_components G) = c"
    using img I4[THEN conjunct1] by (simp add: num_components_def)
  then show "\<forall>u\<in>verts G. 0 \<le> L ! nat u \<and> L ! nat u < int (num_components G)"
    using range by simp
qed

lemma same_topology_sym: "same_topology G G' \<Longrightarrow> same_topology G' G"
  by (simp add: same_topology_def)

lemma same_topology_accessors:
  assumes "same_topology G G'"
  shows "NumVertices G' = NumVertices G" "NumAdjacents G' N = NumAdjacents G N"
    "map_sum id fst (GetAdjacent G' N j) = map_sum id fst (GetAdjacent G N j)"
proof -
  have l: "length (m_Adjs G') = length (m_Adjs G)"
    using assms unfolding same_topology_def by (metis length_map)
  have n: "fst (m_Adjs G' ! i) = fst (m_Adjs G ! i)" if "i < length (m_Adjs G)" for i
    using assms that l unfolding same_topology_def by (metis nth_map)
  show "NumVertices G' = NumVertices G" "NumAdjacents G' N = NumAdjacents G N"
    using assms by (simp_all add: same_topology_def NumVertices_def NumAdjacents_def cong: sum.case_cong)
  show "map_sum id fst (GetAdjacent G' N j) = map_sum id fst (GetAdjacent G N j)"
    using assms l n by (auto simp: same_topology_def GetAdjacent_def vec_at_def split: sum.splits)
qed

lemma same_topology_push:
  assumes "same_topology G G'"
  shows "push_adjacents G' N js Qu = push_adjacents G N js Qu"
proof (induction js arbitrary: Qu)
  case Nil
  show ?case by simp
next
  case (Cons jj js)
  from same_topology_accessors(3)[OF assms, of N jj] Cons.IH show ?case
    by (cases "GetAdjacent G N jj"; cases "GetAdjacent G' N jj") simp_all
qed

lemma same_topology_body:
  assumes "same_topology G G'"
  shows "bfs_body G' c s = bfs_body G c s"
  by (simp add: bfs_body_def Let_def same_topology_accessors(2)[OF assms] same_topology_push[OF assms]
      cong: sum.case_cong if_cong)

lemma same_topology_bfs_Some:
  assumes "bfs_loop G c s = Some y"
  shows "\<forall>G'. same_topology G G' \<longrightarrow> bfs_loop G' c s = Some y"
proof (rule bfs_loop.raw_induct[where P = "\<lambda>G c s y. \<forall>G'. same_topology G G' \<longrightarrow> bfs_loop G' c s = Some y",
      OF _ assms])
  fix loop :: "Graph \<Rightarrow> int \<Rightarrow> bfs_state \<Rightarrow> (error + bfs_state) option" and G c s y
  assume IH: "\<And>G c s y. loop G c s = Some y \<Longrightarrow> \<forall>G'. same_topology G G' \<longrightarrow> bfs_loop G' c s = Some y"
    and body: "(if Q s = [] then Some (Inr s)
        else case bfs_body G c s of Inl x \<Rightarrow> Some (Inl x) | Inr s' \<Rightarrow> loop G c s') = Some y"
  show "\<forall>G'. same_topology G G' \<longrightarrow> bfs_loop G' c s = Some y"
  proof (intro allI impI)
    fix G' assume st: "same_topology G G'"
    show "bfs_loop G' c s = Some y"
    proof (cases "Q s = []")
      case True
      with body show ?thesis by (subst bfs_loop.simps) simp
    next
      case False
      show ?thesis
      proof (cases "bfs_body G c s")
        case (Inl x)
        with body False show ?thesis
          by (subst bfs_loop.simps) (auto simp: same_topology_body[OF st])
      next
        case (Inr s')
        with body False have "loop G c s' = Some y" by simp
        from IH[OF this] st Inr False show ?thesis
          by (subst bfs_loop.simps) (simp add: same_topology_body[OF st])
      qed
    qed
  qed
qed

lemma same_topology_bfs:
  assumes "same_topology G G'"
  shows "bfs_loop G' c s = bfs_loop G c s"
proof (cases "bfs_loop G c s")
  case (Some y)
  with same_topology_bfs_Some[OF Some] assms show ?thesis by simp
next
  case None
  show ?thesis
  proof (cases "bfs_loop G' c s")
    case None': None
    with None show ?thesis by simp
  next
    case (Some y)
    from same_topology_bfs_Some[OF Some] same_topology_sym[OF assms] None show ?thesis by simp
  qed
qed

lemma same_topology_cc_Some:
  assumes "cc_loop G L Vs c = Some y"
  shows "\<forall>G'. same_topology G G' \<longrightarrow> cc_loop G' L Vs c = Some y"
proof (rule cc_loop.raw_induct[where P = "\<lambda>G L Vs c y. \<forall>G'. same_topology G G' \<longrightarrow> cc_loop G' L Vs c = Some y",
      OF _ assms])
  fix loop :: "Graph \<Rightarrow> int list \<Rightarrow> int list \<Rightarrow> int \<Rightarrow> (error + int list) option" and G L Vs c y
  assume IH: "\<And>G L Vs c y. loop G L Vs c = Some y \<Longrightarrow>
        \<forall>G'. same_topology G G' \<longrightarrow> cc_loop G' L Vs c = Some y"
    and body: "(if sum_list Vs < NumVertices G
      then let Root = find_root Vs 0
           in case bfs_loop G c \<lparr>CC = L, Visited = Vs, Q = [Root]\<rparr> of
              None \<Rightarrow> None | Some (Inl x) \<Rightarrow> Some (Inl x)
              | Some (Inr s) \<Rightarrow> loop G (CC s) (Visited s) (c + 1)
      else Some (Inr L)) = Some y"
  show "\<forall>G'. same_topology G G' \<longrightarrow> cc_loop G' L Vs c = Some y"
  proof (intro allI impI)
    fix G' assume st: "same_topology G G'"
    note nv = same_topology_accessors(1)[OF st]
    note bfs = same_topology_bfs[OF st]
    show "cc_loop G' L Vs c = Some y"
    proof (cases "sum_list Vs < NumVertices G")
      case False
      with body show ?thesis by (subst cc_loop.simps) (simp add: nv)
    next
      case True
      show ?thesis
      proof (cases "bfs_loop G c \<lparr>CC = L, Visited = Vs, Q = [find_root Vs 0]\<rparr>")
        case None
        with body True show ?thesis by (simp add: Let_def)
      next
        case (Some r)
        show ?thesis
        proof (cases r)
          case (Inl x)
          with body True Some show ?thesis
            by (subst cc_loop.simps) (auto simp: nv bfs Let_def)
        next
          case (Inr s)
          with body True Some have "loop G (CC s) (Visited s) (c + 1) = Some y" by (simp add: Let_def)
          from IH[OF this] st True Some Inr show ?thesis
            by (subst cc_loop.simps) (simp add: nv bfs Let_def)
        qed
      qed
    qed
  qed
qed

lemma same_topology_ConnectedComponents:
  assumes "same_topology G G'"
  shows "ConnectedComponents G' = ConnectedComponents G"
proof -
  note nv = same_topology_accessors(1)[OF assms]
  let ?z = "replicate (nat (NumVertices G)) (0::int)"
  show ?thesis
  proof (cases "cc_loop G ?z ?z 0")
    case (Some y)
    with same_topology_cc_Some[OF Some] assms show ?thesis by (simp add: ConnectedComponents_def nv)
  next
    case None
    show ?thesis
    proof (cases "cc_loop G' ?z ?z 0")
      case None': None
      with None show ?thesis by (simp add: ConnectedComponents_def nv)
    next
      case (Some y)
      from same_topology_cc_Some[OF Some] same_topology_sym[OF assms] None show ?thesis by simp
    qed
  qed
qed

text \<open>
  Claim C2. On a graph with a well-formed CSR, \<open>ConnectedComponents\<close> returns an array \<open>L\<close>
  of length \<open>NumVertices()\<close>; every label is in \<open>[0, k)\<close>, \<open>k\<close> the number of connected
  components; two vertices have the same label exactly when a path connects them; the labels
  follow the order in which the traversals start from the lowest-indexed unvisited vertex:
  the label of \<open>u\<close> is below the label of \<open>v\<close> exactly when the lowest vertex of the
  component of \<open>u\<close> is below that of \<open>v\<close>; and the weights play no role: any graph with the
  same number of vertices, the same offsets and the same neighbour indices gets the same
  labels.
\<close>

theorem connected_components_correct:
  assumes wf: "wf_csr G"
  shows "\<exists>L. ConnectedComponents G = Some (Inr L) \<and> int (length L) = NumVertices G \<and>
           (\<forall>u\<in>verts G. 0 \<le> L ! nat u \<and> L ! nat u < int (num_components G)) \<and>
           (\<forall>u\<in>verts G. \<forall>v\<in>verts G. (L ! nat u = L ! nat v \<longleftrightarrow> reachable G u v)) \<and>
           (\<forall>u\<in>verts G. \<forall>v\<in>verts G. (L ! nat u < L ! nat v \<longleftrightarrow> comp_root G u < comp_root G v)) \<and>
           (\<forall>G'. same_topology G G' \<longrightarrow> ConnectedComponents G' = Some (Inr L))"
proof -
  from cc_loop_total[OF wf cc_inv_init] obtain L Vs c where
    r: "ConnectedComponents G = Some (Inr L)" and inv: "cc_inv G L Vs c" and all: "unvisited G Vs = {}"
    unfolding ConnectedComponents_def by blast
  note fin = cc_inv_final[OF wf inv all]
  have "int (length L) = NumVertices G" using fin(1) by (simp add: NumVertices_def)
  moreover have "\<forall>G'. same_topology G G' \<longrightarrow> ConnectedComponents G' = Some (Inr L)"
    using same_topology_ConnectedComponents r by simp
  ultimately show ?thesis using r fin(2,3,4) by blast
qed

lemma bfs_loop_done: "Q s = [] \<Longrightarrow> bfs_loop G c s = Some (Inr s)"
  by (subst bfs_loop.simps) simp

lemma bfs_loop_next: "Q s \<noteq> [] \<Longrightarrow> bfs_body G c s = Inr s' \<Longrightarrow> bfs_loop G c s = bfs_loop G c s'"
  by (subst bfs_loop.simps) simp

lemma cc_loop_done: "\<not> sum_list Vs < NumVertices G \<Longrightarrow> cc_loop G L Vs c = Some (Inr L)"
  by (subst cc_loop.simps) simp

lemma cc_loop_next:
  "sum_list Vs < NumVertices G \<Longrightarrow>
   bfs_loop G c \<lparr>CC = L, Visited = Vs, Q = [find_root Vs 0]\<rparr> = Some (Inr s) \<Longrightarrow>
   cc_loop G L Vs c = cc_loop G (CC s) (Visited s) (c + 1)"
  by (subst cc_loop.simps) (simp add: Let_def)

lemma Gw_bfs_0:
  "bfs_loop Gw 0 \<lparr>CC = [0, 0, 0], Visited = [0, 0, 0], Q = [0]\<rparr> =
     Some (Inr \<lparr>CC = [0, 0, 0], Visited = [1, 1, 0], Q = []\<rparr>)"
proof -
  have 1: "bfs_body Gw 0 \<lparr>CC = [0, 0, 0], Visited = [0, 0, 0], Q = [0]\<rparr> =
      Inr \<lparr>CC = [0, 0, 0], Visited = [1, 0, 0], Q = [1]\<rparr>" by code_simp
  have 2: "bfs_body Gw 0 \<lparr>CC = [0, 0, 0], Visited = [1, 0, 0], Q = [1]\<rparr> =
      Inr \<lparr>CC = [0, 0, 0], Visited = [1, 1, 0], Q = [0]\<rparr>" by code_simp
  have 3: "bfs_body Gw 0 \<lparr>CC = [0, 0, 0], Visited = [1, 1, 0], Q = [0]\<rparr> =
      Inr \<lparr>CC = [0, 0, 0], Visited = [1, 1, 0], Q = []\<rparr>" by code_simp
  show ?thesis
    by (simp add: bfs_loop_next[OF _ 1] bfs_loop_next[OF _ 2] bfs_loop_next[OF _ 3] bfs_loop_done)
qed

lemma Gw_bfs_1:
  "bfs_loop Gw 1 \<lparr>CC = [0, 0, 0], Visited = [1, 1, 0], Q = [2]\<rparr> =
     Some (Inr \<lparr>CC = [0, 0, 1], Visited = [1, 1, 1], Q = []\<rparr>)"
proof -
  have 1: "bfs_body Gw 1 \<lparr>CC = [0, 0, 0], Visited = [1, 1, 0], Q = [2]\<rparr> =
      Inr \<lparr>CC = [0, 0, 1], Visited = [1, 1, 1], Q = []\<rparr>" by code_simp
  show ?thesis by (simp add: bfs_loop_next[OF _ 1] bfs_loop_done)
qed

lemma Gw_CC: "ConnectedComponents Gw = Some (Inr [0, 0, 1])"
proof -
  have n: "NumVertices Gw = 3" by (simp add: NumVertices_def Gw_def)
  have b0: "bfs_loop Gw 0 \<lparr>CC = [0, 0, 0], Visited = [0, 0, 0], Q = [find_root [0, 0, 0] 0]\<rparr> =
     Some (Inr \<lparr>CC = [0, 0, 0], Visited = [1, 1, 0], Q = []\<rparr>)"
    by (simp add: Gw_bfs_0)
  have b1: "bfs_loop Gw 1 \<lparr>CC = [0, 0, 0], Visited = [1, 1, 0], Q = [find_root [1, 1, 0] 0]\<rparr> =
     Some (Inr \<lparr>CC = [0, 0, 1], Visited = [1, 1, 1], Q = []\<rparr>)"
    by (simp add: Gw_bfs_1)
  have "cc_loop Gw [0, 0, 0] [0, 0, 0] 0 = cc_loop Gw [0, 0, 0] [1, 1, 0] 1"
    using cc_loop_next[OF _ b0] n by simp
  also have "\<dots> = cc_loop Gw [0, 0, 1] [1, 1, 1] 2"
    using cc_loop_next[OF _ b1] n by simp
  also have "\<dots> = Some (Inr [0, 0, 1])" by (rule cc_loop_done) (simp add: n)
  finally show ?thesis by (simp add: ConnectedComponents_def n numeral_3_eq_3)
qed

lemma adjacent_single:
  assumes "NumAdjacents G u = Inr 1" and "GetAdjacent G u 0 = Inr e"
  shows "adjacent G u v \<longleftrightarrow> v = fst e"
proof
  assume "adjacent G u v"
  then obtain d j e' where "NumAdjacents G u = Inr d" "0 \<le> j" "j < d"
    "GetAdjacent G u j = Inr e'" "fst e' = v"
    unfolding adjacent_def by blast
  moreover from this assms(1) have "j = 0" by simp
  ultimately show "v = fst e" using assms(2) by simp
next
  assume "v = fst e"
  with assms show "adjacent G u v" unfolding adjacent_def by (intro exI[of _ 1] exI[of _ 0] exI[of _ e]) simp
qed

lemma adjacent_none:
  assumes "NumAdjacents G u = Inr 0 \<or> NumAdjacents G u = Inl x"
  shows "\<not> adjacent G u v"
  using assms unfolding adjacent_def by auto

lemma Gw_adjacent: "adjacent Gw u v \<longleftrightarrow> (u = 0 \<and> v = 1) \<or> (u = 1 \<and> v = 0)"
proof -
  consider "u = 0" | "u = 1" | "u = 2" | "u < 0 \<or> 3 \<le> u" by linarith
  then show ?thesis
  proof cases
    case 1
    have "NumAdjacents Gw 0 = Inr 1" by (simp add: NumAdjacents_def Gw_def vec_at_def)
    moreover have "GetAdjacent Gw 0 0 = Inr (1, Finite 1)" by (simp add: GetAdjacent_def Gw_def vec_at_def)
    ultimately have "adjacent Gw 0 v \<longleftrightarrow> v = 1" using adjacent_single by fastforce
    with 1 show ?thesis by simp
  next
    case 2
    have "NumAdjacents Gw 1 = Inr 1" by (simp add: NumAdjacents_def Gw_def vec_at_def)
    moreover have "GetAdjacent Gw 1 0 = Inr (0, Finite 1)" by (simp add: GetAdjacent_def Gw_def vec_at_def)
    ultimately have "adjacent Gw 1 v \<longleftrightarrow> v = 0" using adjacent_single by fastforce
    with 2 show ?thesis by simp
  next
    case 3
    have "NumAdjacents Gw 2 = Inr 0" by (simp add: NumAdjacents_def Gw_def vec_at_def)
    then have "\<not> adjacent Gw 2 v" using adjacent_none by blast
    with 3 show ?thesis by simp
  next
    case 4
    then have "NumAdjacents Gw u = Inl OutOfBounds"
      by (auto simp: NumAdjacents_def Gw_def vec_at_def)
    then have "\<not> adjacent Gw u v" using adjacent_none by blast
    with 4 show ?thesis by auto
  qed
qed

lemma Gw_wf: "wf_csr Gw"
proof -
  have "\<forall>i<3. [0, 1, 2, 2::int] ! i \<le> [0, 1, 2, 2] ! (i + 1)"
    by (simp add: All_less_Suc numeral_3_eq_3)
  then show ?thesis
    unfolding wf_csr_def using Gw_adjacent by (auto simp: Gw_def verts_def NumVertices_def)
qed

theorem connected_components_correct_witness:
  "wf_csr Gw \<and> ConnectedComponents Gw = Some (Inr [0, 0, 1]) \<and>
   reachable Gw 0 1 \<and> \<not> reachable Gw 0 2 \<and> 1 < int (num_components Gw) \<and>
   comp_root Gw 1 < comp_root Gw 2 \<and>
   ConnectedComponents (Gw\<lparr>m_Adjs := [(1, Finite 5), (0, PlusInf)]\<rparr>) = Some (Inr [0, 0, 1])"
proof -
  have nth: "[0, 0, 1::int] ! nat 0 = 0" "[0, 0, 1::int] ! nat 1 = 0" "[0, 0, 1::int] ! nat 2 = 1"
    by simp_all
  from connected_components_correct[OF Gw_wf] obtain L where
    L: "ConnectedComponents Gw = Some (Inr L)"
    and range0: "\<forall>u\<in>verts Gw. 0 \<le> L ! nat u \<and> L ! nat u < int (num_components Gw)"
    and eq0: "\<forall>u\<in>verts Gw. \<forall>v\<in>verts Gw. (L ! nat u = L ! nat v \<longleftrightarrow> reachable Gw u v)"
    and ord0: "\<forall>u\<in>verts Gw. \<forall>v\<in>verts Gw. (L ! nat u < L ! nat v \<longleftrightarrow> comp_root Gw u < comp_root Gw v)"
    and wt0: "\<forall>G'. same_topology Gw G' \<longrightarrow> ConnectedComponents G' = Some (Inr L)"
    by blast
  have LL: "L = [0, 0, 1]" using L Gw_CC by simp
  note range = range0[unfolded LL] and eq = eq0[unfolded LL] and ord = ord0[unfolded LL]
    and wt = wt0[unfolded LL]
  have v: "0 \<in> verts Gw" "1 \<in> verts Gw" "2 \<in> verts Gw"
    by (simp_all add: verts_def NumVertices_def Gw_def)
  have "reachable Gw 0 1" using eq[rule_format, OF v(1) v(2)] nth by simp
  moreover have "\<not> reachable Gw 0 2" using eq[rule_format, OF v(1) v(3)] nth by simp
  moreover have "1 < int (num_components Gw)" using range[rule_format, OF v(3)] nth by simp
  moreover have "comp_root Gw 1 < comp_root Gw 2" using ord[rule_format, OF v(2) v(3)] nth by simp
  moreover have "same_topology Gw (Gw\<lparr>m_Adjs := [(1, Finite 5), (0, PlusInf)]\<rparr>)"
    by (simp add: same_topology_def Gw_def)
  ultimately show ?thesis using Gw_wf Gw_CC wt by blast
qed

text \<open>
  Claim C10. \<open>ConnectedComponents\<close> terminates on every graph with a well-formed CSR: the
  call returns an array. Each iteration of the outer loop (from a state of the loop, with
  \<open>Visited.sum() < NumVertices()\<close>) ends its traversal with the chosen root, unvisited
  before, now visited: the set of unvisited vertices, a subset of the vertices, shrinks
  strictly. Each iteration of the inner loop (from a state of the traversal with a
  non-empty queue) returns a state that is smaller in the lexicographic order of the
  number of unvisited vertices and the length of the queue: it pops one element and pushes
  neighbours only when it visits a new vertex.
\<close>

theorem connected_components_terminates:
  assumes wf: "wf_csr G"
  shows "(\<exists>L. ConnectedComponents G = Some (Inr L)) \<and>
         (\<forall>L Vs c. cc_inv G L Vs c \<and> sum_list Vs < NumVertices G \<longrightarrow>
            (\<exists>s. bfs_loop G c \<lparr>CC = L, Visited = Vs, Q = [find_root Vs 0]\<rparr> = Some (Inr s) \<and>
                 cc_inv G (CC s) (Visited s) (c + 1) \<and>
                 \<not> vis Vs (find_root Vs 0) \<and> vis (Visited s) (find_root Vs 0) \<and>
                 unvisited G (Visited s) \<subset> unvisited G Vs \<and> unvisited G Vs \<subseteq> verts G)) \<and>
         (\<forall>Root c L Vs s. bfs_inv G Root c L Vs s \<and> Q s \<noteq> [] \<longrightarrow>
            (\<exists>s'. bfs_body G c s = Inr s' \<and> bfs_inv G Root c L Vs s' \<and>
                  (bfs_measure s', bfs_measure s) \<in> less_than <*lex*> less_than))"
proof (intro conjI allI impI)
  from cc_loop_total[OF wf cc_inv_init] show "\<exists>L. ConnectedComponents G = Some (Inr L)"
    unfolding ConnectedComponents_def by blast
next
  fix L Vs c assume a: "cc_inv G L Vs c \<and> sum_list Vs < NumVertices G"
  have "unvisited G Vs \<subseteq> verts G" by (auto simp: unvisited_def)
  with cc_step[OF wf a[THEN conjunct1] a[THEN conjunct2]]
  show "\<exists>s. bfs_loop G c \<lparr>CC = L, Visited = Vs, Q = [find_root Vs 0]\<rparr> = Some (Inr s) \<and>
                 cc_inv G (CC s) (Visited s) (c + 1) \<and>
                 \<not> vis Vs (find_root Vs 0) \<and> vis (Visited s) (find_root Vs 0) \<and>
                 unvisited G (Visited s) \<subset> unvisited G Vs \<and> unvisited G Vs \<subseteq> verts G"
    by blast
next
  fix Root c L Vs s assume a: "bfs_inv G Root c L Vs s \<and> Q s \<noteq> []"
  from bfs_body_step[OF wf a[THEN conjunct1] a[THEN conjunct2]]
  show "\<exists>s'. bfs_body G c s = Inr s' \<and> bfs_inv G Root c L Vs s' \<and>
                  (bfs_measure s', bfs_measure s) \<in> less_than <*lex*> less_than" .
qed

theorem connected_components_terminates_witness:
  "wf_csr Gw \<and> (\<exists>L. ConnectedComponents Gw = Some (Inr L)) \<and>
   cc_inv Gw [0, 0, 0] [0, 0, 0] 0 \<and> sum_list [0, 0, 0] < NumVertices Gw \<and>
   (\<exists>s. bfs_loop Gw 0 \<lparr>CC = [0, 0, 0], Visited = [0, 0, 0], Q = [find_root [0, 0, 0] 0]\<rparr> = Some (Inr s) \<and>
        vis (Visited s) (find_root [0, 0, 0] 0) \<and> unvisited Gw (Visited s) \<subset> unvisited Gw [0, 0, 0]) \<and>
   bfs_inv Gw 0 0 [0, 0, 0] [0, 0, 0] \<lparr>CC = [0, 0, 0], Visited = [0, 0, 0], Q = [0]\<rparr> \<and>
   (\<exists>s'. bfs_body Gw 0 \<lparr>CC = [0, 0, 0], Visited = [0, 0, 0], Q = [0]\<rparr> = Inr s' \<and>
         (bfs_measure s', bfs_measure \<lparr>CC = [0, 0, 0], Visited = [0, 0, 0], Q = [0]\<rparr>)
            \<in> less_than <*lex*> less_than)"
proof -
  have n: "NumVertices Gw = 3" by (simp add: NumVertices_def Gw_def)
  have i: "cc_inv Gw [0, 0, 0] [0, 0, 0] 0"
    using cc_inv_init[of Gw] by (simp add: n numeral_3_eq_3)
  have s: "sum_list [0, 0, 0] < NumVertices Gw" by (simp add: n)
  have b: "bfs_inv Gw 0 0 [0, 0, 0] [0, 0, 0] \<lparr>CC = [0, 0, 0], Visited = [0, 0, 0], Q = [0]\<rparr>"
    unfolding bfs_inv_def by (auto simp: Gw_def verts_def NumVertices_def vis_def reachable_refl)
  note t = connected_components_terminates[OF Gw_wf]
  from t[THEN conjunct1] t[THEN conjunct2, THEN conjunct1, rule_format, OF conjI[OF i s]]
    t[THEN conjunct2, THEN conjunct2, rule_format, of 0 0 "[0, 0, 0]" "[0, 0, 0]"
      "\<lparr>CC = [0, 0, 0], Visited = [0, 0, 0], Q = [0]\<rparr>"] b
  show ?thesis using Gw_wf i s by (simp; blast)
qed

section \<open>Determinism, ownership and the driver\<close>

text \<open>
  Claim C5. The core is deterministic: two runs of the construction and of
  \<open>ConnectedComponents\<close> on the same points and triangles, whatever order \<open>std::sort\<close>
  leaves equivalent edges in, give the same vertex, offset and adjacency arrays and the same
  labels; they are those of the functions \<open>Graph_VF\<close> and \<open>ConnectedComponents\<close>.
\<close>

theorem core_deterministic:
  assumes "std_sort_result (all_tri_edges F) ys" and "std_sort_result (all_tri_edges F) ys'"
  shows "core_run V F ys = core_run V F ys' \<and>
         Graph_VF_run V F ys = Graph_VF V F \<and>
         core_run V F ys = (case Graph_VF V F of Inl x \<Rightarrow> Inl x | Inr G \<Rightarrow> Inr (G, ConnectedComponents G))"
proof -
  have "sort (all_tri_edges F) = ys" "sort (all_tri_edges F) = ys'"
    using assms unfolding std_sort_result_def by (auto intro: properties_for_sort)
  then show ?thesis by (auto simp: core_run_def Graph_VF_run_def Graph_VF_def)
qed

theorem core_deterministic_witness:
  "std_sort_result (all_tri_edges [(0, 1, 2)]) [(0, 1), (0, 2), (1, 0), (1, 2), (2, 0), (2, 1)] \<and>
   std_sort_result (all_tri_edges [(0, 1, 2)]) (sort (all_tri_edges [(0, 1, 2)])) \<and>
   core_run V3 [(0, 1, 2)] [(0, 1), (0, 2), (1, 0), (1, 2), (2, 0), (2, 1)] =
     core_run V3 [(0, 1, 2)] (sort (all_tri_edges [(0, 1, 2)])) \<and>
   Graph_VF_run V3 [(0, 1, 2)] [(0, 1), (0, 2), (1, 0), (1, 2), (2, 0), (2, 1)] = Inr G3"
proof -
  have 1: "std_sort_result (all_tri_edges [(0, 1, 2)]) [(0, 1), (0, 2), (1, 0), (1, 2), (2, 0), (2, 1)]"
    by (simp add: std_sort_result_def all_tri_edges_def)
  have 2: "std_sort_result (all_tri_edges [(0, 1, 2)]) (sort (all_tri_edges [(0, 1, 2)]))"
    by (simp add: std_sort_result_def)
  from core_deterministic[OF 1 2, of V3] 1 2 Graph_VF_V3 show ?thesis by simp
qed

lemma Graph_VF_Verts: "Graph_VF V F = Inr G \<Longrightarrow> m_Verts G = V"
  unfolding Graph_VF_def using populate_adjacency_ok by blast

text \<open>
  Claim C6. The constructor copies the caller's coordinates and the graph does not change
  afterwards: once the constructor has returned, the graph holds the coordinates that the
  caller's array had at construction, and an assignment of the caller to any array that
  existed before the call (the point array among them) changes the result of none of
  \<open>NumVertices\<close>, \<open>NumEdges\<close>, \<open>NumAdjacents\<close>, \<open>GetVertex\<close> and \<open>GetAdjacent\<close>.
\<close>

theorem graph_owns_its_vertices:
  assumes built: "new_Graph st pV F = Inr (st', g)" and p: "p < length st"
  shows "Graph_VF (st ! pV) F = Inr (deref st' g) \<and>
         m_Verts (deref st' g) = st ! pV \<and>
         deref (caller_write st' p V') g = deref st' g \<and>
         NumVertices (deref (caller_write st' p V') g) = NumVertices (deref st' g) \<and>
         NumEdges (deref (caller_write st' p V') g) = NumEdges (deref st' g) \<and>
         NumAdjacents (deref (caller_write st' p V') g) i = NumAdjacents (deref st' g) i \<and>
         GetVertex (deref (caller_write st' p V') g) i = GetVertex (deref st' g) i \<and>
         GetAdjacent (deref (caller_write st' p V') g) i j = GetAdjacent (deref st' g) i j"
proof -
  from built obtain G where G: "Graph_VF (st ! pV) F = Inr G"
    and st': "st' = st @ [m_Verts G]"
    and g: "g = \<lparr>verts_buf = length st, obj_Idxs = m_Idxs G, obj_Adjs = m_Adjs G\<rparr>"
    by (auto simp: new_Graph_def split: if_splits sum.splits)
  have d: "deref st' g = G" by (simp add: deref_def st' g)
  have w: "deref (caller_write st' p V') g = deref st' g"
    using p by (simp add: deref_def caller_write_def st' g nth_append)
  from G d w Graph_VF_Verts[OF G] show ?thesis by simp
qed

theorem graph_owns_its_vertices_witness:
  "new_Graph [V3] 0 [(0, 1, 2)] =
     Inr ([V3, V3], \<lparr>verts_buf = 1, obj_Idxs = m_Idxs G3, obj_Adjs = m_Adjs G3\<rparr>) \<and>
   (0::nat) < length [V3] \<and>
   deref (caller_write [V3, V3] 0 []) \<lparr>verts_buf = 1, obj_Idxs = m_Idxs G3, obj_Adjs = m_Adjs G3\<rparr> = G3 \<and>
   GetVertex (deref (caller_write [V3, V3] 0 [])
       \<lparr>verts_buf = 1, obj_Idxs = m_Idxs G3, obj_Adjs = m_Adjs G3\<rparr>) 1 = Inr (vec3 1 0 0) \<and>
   NumVertices (deref (caller_write [V3, V3] 0 [])
       \<lparr>verts_buf = 1, obj_Idxs = m_Idxs G3, obj_Adjs = m_Adjs G3\<rparr>) = 3"
proof -
  have b: "new_Graph [V3] 0 [(0, 1, 2)] =
     Inr ([V3, V3], \<lparr>verts_buf = 1, obj_Idxs = m_Idxs G3, obj_Adjs = m_Adjs G3\<rparr>)"
    by (simp add: new_Graph_def Graph_VF_V3) (simp add: G3_def)
  have p: "(0::nat) < length [V3]" by simp
  have d: "deref [V3, V3] \<lparr>verts_buf = 1, obj_Idxs = m_Idxs G3, obj_Adjs = m_Adjs G3\<rparr> = G3"
    by (simp add: deref_def G3_def)
  have v: "GetVertex G3 1 = Inr (vec3 1 0 0)" "NumVertices G3 = 3"
    by (simp_all add: GetVertex_def NumVertices_def vec_at_def G3_def V3_def)
  from graph_owns_its_vertices[OF b p, of "[]" 1] b p d v show ?thesis by simp
qed

lemma export_and_report_empty:
  assumes "length FF = 0" and "ExportMesh W (OutMesh Args) VV FF"
  shows "export_and_report W Args V FOrig nVertsOrig VV FF =
           (0, [Cout (Str ''Exporting to ''), Cout (Str (OutMesh Args)), Cout (Str ''... ''),
                ExportMeshCall (OutMesh Args) VV FF True] @ elapsed (StopTimer W Exporting)
               @ [Cout (Str no_face_message), Cout Endl])"
  using assms by (simp add: export_and_report_def Let_def)

lemma export_failure_is_an_error:
  assumes "\<not> ExportMesh W (OutMesh Args) VV FF"
  shows "export_and_report W Args V FOrig nVertsOrig VV FF =
           (- 1, [Cout (Str ''Exporting to ''), Cout (Str (OutMesh Args)), Cout (Str ''... ''),
                  ExportMeshCall (OutMesh Args) VV FF False,
                  Cerr (Str ''Cannot write mesh.''), Cerr Endl])"
  using assms by (simp add: export_and_report_def Let_def)

text \<open>
  Claim C7. An empty low-resolution triangle set is reported, not treated as an error: in a
  run that reaches the export with a dual mesh of zero triangles and in which the export of
  the mesh succeeds, the driver has exported the mesh (with its empty triangle list), prints
  the diagnostic message on \<open>std::cout\<close>, writes nothing on \<open>std::cerr\<close>, does not compute the
  weight map, and returns 0.
\<close>

theorem empty_dual_mesh_is_reported:
  assumes load: "LoadMesh W (InMesh Args) = Some (V0, F0)"
    and mesh: "mesh_to_process W Args V0 F0 = (V, F)"
    and graph: "Graph_VF V F = Inr G"
    and cc: "ConnectedComponents G = Some (Inr CCs)"
    and dual: "dual_mesh W Args V F G = (VV, FF)"
    and empty: "length FF = 0"
    and export: "ExportMesh W (OutMesh Args) VV FF"
  shows "\<exists>log. main W Args = Some (0, log) \<and>
           ExportMeshCall (OutMesh Args) VV FF True \<in> set log \<and>
           Cout (Str no_face_message) \<in> set log \<and>
           \<not> list_ex is_Cerr log \<and> \<not> list_ex is_ExportWeightmapCall log"
proof -
  note e = export_and_report_empty[OF empty export, of V F0 "int (length V0)"]
  have "\<exists>pre. main W Args = Some (0, pre @ snd (export_and_report W Args V F0 (int (length V0)) VV FF))
          \<and> \<not> list_ex is_Cerr pre \<and> \<not> list_ex is_ExportWeightmapCall pre"
    using load mesh graph cc dual
    by (simp add: main_def Let_def e elapsed_def is_Cerr_def is_ExportWeightmapCall_def)
  then obtain pre where m: "main W Args = Some (0, pre @ snd (export_and_report W Args V F0 (int (length V0)) VV FF))"
    and pre: "\<not> list_ex is_Cerr pre" "\<not> list_ex is_ExportWeightmapCall pre"
    by blast
  show ?thesis
    using m pre unfolding e
    by (intro exI[of _ "pre @ snd (0::int, [Cout (Str ''Exporting to ''), Cout (Str (OutMesh Args)), Cout (Str ''... ''),
                ExportMeshCall (OutMesh Args) VV FF True] @ elapsed (StopTimer W Exporting)
               @ [Cout (Str no_face_message), Cout Endl])"])
       (simp add: elapsed_def is_Cerr_def is_ExportWeightmapCall_def)
qed

lemma Graph_VF_G1: "Graph_VF [vec3 0 0 0] [] = Inr G1"
  by (simp add: Graph_VF_def all_tri_edges_def populate_def vec_at_def vec_put_def G1_def)

lemma G1_CC: "ConnectedComponents G1 = Some (Inr [0])"
proof -
  have n: "NumVertices G1 = 1" by (simp add: NumVertices_def G1_def)
  have 1: "bfs_body G1 0 \<lparr>CC = [0], Visited = [0], Q = [0]\<rparr> = Inr \<lparr>CC = [0], Visited = [1], Q = []\<rparr>"
    by code_simp
  have b: "bfs_loop G1 0 \<lparr>CC = [0], Visited = [0], Q = [find_root [0] 0]\<rparr> =
      Some (Inr \<lparr>CC = [0], Visited = [1], Q = []\<rparr>)"
    by (simp add: bfs_loop_next[OF _ 1] bfs_loop_done)
  have "cc_loop G1 [0] [0] 0 = cc_loop G1 [0] [1] 1"
    using cc_loop_next[OF _ b] n by simp
  also have "\<dots> = Some (Inr [0])" by (rule cc_loop_done) (simp add: n)
  finally show ?thesis by (simp add: ConnectedComponents_def n)
qed

theorem empty_dual_mesh_is_reported_witness:
  "LoadMesh W0 (InMesh Args0) = Some ([vec3 0 0 0], []) \<and>
   mesh_to_process W0 Args0 [vec3 0 0 0] [] = ([vec3 0 0 0], []) \<and>
   Graph_VF [vec3 0 0 0] [] = Inr G1 \<and> ConnectedComponents G1 = Some (Inr [0]) \<and>
   dual_mesh W0 Args0 [vec3 0 0 0] [] G1 = ([vec3 0 0 0], []) \<and>
   ExportMesh W0 (OutMesh Args0) [vec3 0 0 0] [] \<and>
   (\<exists>log. main W0 Args0 = Some (0, log) \<and>
      ExportMeshCall (OutMesh Args0) [vec3 0 0 0] [] True \<in> set log \<and>
      Cout (Str no_face_message) \<in> set log \<and>
      \<not> list_ex is_Cerr log \<and> \<not> list_ex is_ExportWeightmapCall log)"
proof -
  have 1: "LoadMesh W0 (InMesh Args0) = Some ([vec3 0 0 0], [])" by (simp add: W0_def)
  have 2: "mesh_to_process W0 Args0 [vec3 0 0 0] [] = ([vec3 0 0 0], [])"
    by (simp add: mesh_to_process_def Args0_def)
  have 3: "dual_mesh W0 Args0 [vec3 0 0 0] [] G1 = ([vec3 0 0 0], [])"
    by (simp add: dual_mesh_def W0_def)
  have 4: "length ([] :: Triangle list) = 0" by simp
  have 5: "ExportMesh W0 (OutMesh Args0) [vec3 0 0 0] []" by (simp add: W0_def)
  from empty_dual_mesh_is_reported[OF 1 2 Graph_VF_G1 G1_CC 3 4 5] 1 2 3 5 Graph_VF_G1 G1_CC
  show ?thesis by blast
qed

end
